theory Spec2Isabelle
  imports Main "HOL-Library.AList"
begin

section \<open>Text: characters, whitespace, \<open>str.strip\<close>\<close>

text \<open>
  A character of a text is a Unicode scalar value: a code point below \<open>0x110000\<close> that is
  not a surrogate. These are the characters a UTF-8 file can hold. (A Python \<open>str\<close> can
  also hold a lone surrogate, which no UTF-8 file holds and which cannot be written to
  one; such a \<open>str\<close> has no value in the model.) \<open>code c\<close> is the code point of \<open>c\<close>.
\<close>

typedef uchar = "{n::nat. n < 0xD800 \<or> (0xE000 \<le> n \<and> n < 0x110000)}"
  morphisms code uchar_of
  by (rule exI [of _ 0]) simp

type_synonym ustring = "uchar list"

text \<open>The characters below 256, and the text of a literal.\<close>

definition uchr :: "char \<Rightarrow> uchar" where
  "uchr c = uchar_of (of_char c)"

definition ustr :: "string \<Rightarrow> ustring" where
  "ustr s = map uchr s"

abbreviation NL :: uchar where "NL \<equiv> uchr (CHR 0x0A)"
abbreviation CR :: uchar where "CR \<equiv> uchr (CHR 0x0D)"
abbreviation DELIMITER :: uchar where "DELIMITER \<equiv> uchr (CHR '','')"
abbreviation QUOTECHAR :: uchar where "QUOTECHAR \<equiv> uchr (CHR 0x22)"

text \<open>Python's \<open>str.isspace\<close> on one character.\<close>

definition isspace :: "uchar \<Rightarrow> bool" where
  "isspace c \<longleftrightarrow> code c \<in> set [0x09, 0x0A, 0x0B, 0x0C, 0x0D, 0x1C, 0x1D, 0x1E, 0x1F, 0x20,
      0x85, 0xA0, 0x1680, 0x2000, 0x2001, 0x2002, 0x2003, 0x2004, 0x2005, 0x2006, 0x2007,
      0x2008, 0x2009, 0x200A, 0x2028, 0x2029, 0x202F, 0x205F, 0x3000]"

text \<open>\<open>s.strip()\<close>: leading and trailing whitespace removed.\<close>

definition strip :: "ustring \<Rightarrow> ustring" where
  "strip s = rev (dropWhile isspace (rev (dropWhile isspace s)))"

section \<open>Reading a text file line by line\<close>

text \<open>
  Iterating over a file opened with \<open>newline=''\<close> yields its lines, each ended by
  \<open>\n\<close>, \<open>\r\<close> or \<open>\r\n\<close> (kept untranslated), and a last line without an ending when
  the text does not end with one. \<open>cur\<close> is the line read so far.
\<close>

fun readlines_from :: "ustring \<Rightarrow> ustring \<Rightarrow> ustring list" where
  "readlines_from cur [] = (if cur = [] then [] else [cur])"
| "readlines_from cur (c # cs) =
     (if c = NL then (cur @ [c]) # readlines_from [] cs
      else if c = CR then
        (case cs of
           [] \<Rightarrow> [cur @ [c]]
         | d # ds \<Rightarrow> if d = NL then (cur @ [c, d]) # readlines_from [] ds
                    else (cur @ [c]) # readlines_from [] cs)
      else readlines_from (cur @ [c]) cs)"

definition readlines :: "ustring \<Rightarrow> ustring list" where
  "readlines text = readlines_from [] text"

section \<open>The \<open>csv\<close> module, dialect \<open>excel\<close>\<close>

text \<open>
  \<open>csv.reader(f)\<close> and \<open>csv.writer(f)\<close> with the default dialect: delimiter \<open>,\<close>, quote
  character \<open>"\<close>, doubled quotes, no escape character, no initial-space skipping, not
  strict, minimal quoting, line terminator \<open>\r\n\<close>. The reader is the state machine of the
  module; its states for escape characters cannot be entered in this dialect and are left
  out. The reader raises \<open>csv.Error\<close> in two cases: a character is added to a field that
  already has \<open>csv.field_size_limit()\<close> characters (131072 unless changed, and the store
  does not change it), or a character other than a line break follows a line break
  outside quotes.
\<close>

datatype ParserState =
  START_RECORD | START_FIELD | IN_FIELD | IN_QUOTED_FIELD | QUOTE_IN_QUOTED_FIELD | EAT_CRNL

datatype error =
  CsvFieldLimit \<comment> \<open>\<open>csv.Error\<close>: field larger than field limit\<close>
| CsvNewline \<comment> \<open>\<open>csv.Error\<close>: new-line character seen in unquoted field\<close>
| FileNotFoundError
| UnicodeDecodeError

definition field_size_limit :: nat where
  "field_size_limit = 131072"

record reader =
  rd_state :: ParserState
  rd_fields :: "ustring list"
  rd_field :: ustring

definition parse_reset :: reader where
  "parse_reset = \<lparr>rd_state = START_RECORD, rd_fields = [], rd_field = []\<rparr>"

definition parse_save_field :: "reader \<Rightarrow> reader" where
  "parse_save_field r = r\<lparr>rd_fields := rd_fields r @ [rd_field r], rd_field := []\<rparr>"

definition parse_add_char :: "reader \<Rightarrow> uchar \<Rightarrow> error + reader" where
  "parse_add_char r c =
     (if field_size_limit \<le> length (rd_field r) then Inl CsvFieldLimit
      else Inr (r\<lparr>rd_field := rd_field r @ [c]\<rparr>))"

text \<open>The case \<open>START_FIELD\<close> of the machine; \<open>None\<close> is the end-of-line signal \<open>EOL\<close>.\<close>

definition start_field :: "reader \<Rightarrow> uchar option \<Rightarrow> error + reader" where
  "start_field r c =
     (case c of
        None \<Rightarrow> Inr ((parse_save_field r)\<lparr>rd_state := START_RECORD\<rparr>)
      | Some ch \<Rightarrow>
          if ch = NL \<or> ch = CR then Inr ((parse_save_field r)\<lparr>rd_state := EAT_CRNL\<rparr>)
          else if ch = QUOTECHAR then Inr (r\<lparr>rd_state := IN_QUOTED_FIELD\<rparr>)
          else if ch = DELIMITER then Inr (parse_save_field r)
          else (case parse_add_char r ch of
                  Inl e \<Rightarrow> Inl e
                | Inr r' \<Rightarrow> Inr (r'\<lparr>rd_state := IN_FIELD\<rparr>)))"

definition parse_process_char :: "reader \<Rightarrow> uchar option \<Rightarrow> error + reader" where
  "parse_process_char r c =
     (case rd_state r of
        START_RECORD \<Rightarrow>
          (case c of
             None \<Rightarrow> Inr r
           | Some ch \<Rightarrow>
               if ch = NL \<or> ch = CR then Inr (r\<lparr>rd_state := EAT_CRNL\<rparr>)
               else start_field (r\<lparr>rd_state := START_FIELD\<rparr>) c)
      | START_FIELD \<Rightarrow> start_field r c
      | IN_FIELD \<Rightarrow>
          (case c of
             None \<Rightarrow> Inr ((parse_save_field r)\<lparr>rd_state := START_RECORD\<rparr>)
           | Some ch \<Rightarrow>
               if ch = NL \<or> ch = CR then Inr ((parse_save_field r)\<lparr>rd_state := EAT_CRNL\<rparr>)
               else if ch = DELIMITER then Inr ((parse_save_field r)\<lparr>rd_state := START_FIELD\<rparr>)
               else parse_add_char r ch)
      | IN_QUOTED_FIELD \<Rightarrow>
          (case c of
             None \<Rightarrow> Inr r
           | Some ch \<Rightarrow>
               if ch = QUOTECHAR then Inr (r\<lparr>rd_state := QUOTE_IN_QUOTED_FIELD\<rparr>)
               else parse_add_char r ch)
      | QUOTE_IN_QUOTED_FIELD \<Rightarrow>
          (case c of
             None \<Rightarrow> Inr ((parse_save_field r)\<lparr>rd_state := START_RECORD\<rparr>)
           | Some ch \<Rightarrow>
               if ch = QUOTECHAR then
                 (case parse_add_char r ch of
                    Inl e \<Rightarrow> Inl e
                  | Inr r' \<Rightarrow> Inr (r'\<lparr>rd_state := IN_QUOTED_FIELD\<rparr>))
               else if ch = DELIMITER then Inr ((parse_save_field r)\<lparr>rd_state := START_FIELD\<rparr>)
               else if ch = NL \<or> ch = CR then Inr ((parse_save_field r)\<lparr>rd_state := EAT_CRNL\<rparr>)
               else (case parse_add_char r ch of
                       Inl e \<Rightarrow> Inl e
                     | Inr r' \<Rightarrow> Inr (r'\<lparr>rd_state := IN_FIELD\<rparr>)))
      | EAT_CRNL \<Rightarrow>
          (case c of
             None \<Rightarrow> Inr (r\<lparr>rd_state := START_RECORD\<rparr>)
           | Some ch \<Rightarrow> if ch = NL \<or> ch = CR then Inr r else Inl CsvNewline))"

text \<open>The characters of one line, then \<open>EOL\<close>.\<close>

fun parse_chars :: "reader \<Rightarrow> ustring \<Rightarrow> error + reader" where
  "parse_chars r [] = Inr r"
| "parse_chars r (c # cs) =
     (case parse_process_char r (Some c) of
        Inl e \<Rightarrow> Inl e
      | Inr r' \<Rightarrow> parse_chars r' cs)"

definition parse_line :: "reader \<Rightarrow> ustring \<Rightarrow> error + reader" where
  "parse_line r l =
     (case parse_chars r l of
        Inl e \<Rightarrow> Inl e
      | Inr r' \<Rightarrow> parse_process_char r' None)"

text \<open>
  The reader's iteration: lines are consumed until the machine is back in
  \<open>START_RECORD\<close>, which ends a row. At the end of the input an unfinished field, or an
  open quoted field, is saved and its row returned.
\<close>

fun Reader_iter :: "reader \<Rightarrow> ustring list \<Rightarrow> error + ustring list list" where
  "Reader_iter r [] =
     (if rd_field r \<noteq> [] \<or> rd_state r = IN_QUOTED_FIELD
      then Inr [rd_fields (parse_save_field r)] else Inr [])"
| "Reader_iter r (l # ls) =
     (case parse_line r l of
        Inl e \<Rightarrow> Inl e
      | Inr r' \<Rightarrow>
          if rd_state r' = START_RECORD then
            (case Reader_iter parse_reset ls of
               Inl e \<Rightarrow> Inl e
             | Inr rows \<Rightarrow> Inr (rd_fields r' # rows))
          else Reader_iter r' ls)"

definition csv_reader :: "ustring list \<Rightarrow> error + ustring list list" where
  "csv_reader lines = Reader_iter parse_reset lines"

text \<open>The writer: a field is quoted when it holds a delimiter, a quote or a line break.\<close>

definition needs_quote :: "ustring \<Rightarrow> bool" where
  "needs_quote f \<longleftrightarrow> (\<exists>c \<in> set f. c = DELIMITER \<or> c = QUOTECHAR \<or> c = CR \<or> c = NL)"

fun double_quotes :: "ustring \<Rightarrow> ustring" where
  "double_quotes [] = []"
| "double_quotes (c # cs) = (if c = QUOTECHAR then c # c # double_quotes cs else c # double_quotes cs)"

definition join_append_data :: "ustring \<Rightarrow> ustring" where
  "join_append_data f =
     (if needs_quote f then QUOTECHAR # double_quotes f @ [QUOTECHAR] else f)"

text \<open>\<open>rec\<close> is the record buffer, \<open>n\<close> the number of fields already in it.\<close>

fun join_append :: "ustring \<Rightarrow> nat \<Rightarrow> ustring list \<Rightarrow> ustring" where
  "join_append rec n [] = rec"
| "join_append rec n (f # fs) =
     join_append (rec @ (if 0 < n then [DELIMITER] else []) @ join_append_data f) (Suc n) fs"

definition writerow :: "ustring list \<Rightarrow> ustring" where
  "writerow fs =
     (let rec = join_append [] 0 fs
      in (if 0 < length fs \<and> rec = [] then [QUOTECHAR, QUOTECHAR] else rec) @ [CR, NL])"

section \<open>The store: \<open>manager.py\<close>\<close>

text \<open>
  An employee is a dict from field names to texts: its items in insertion order, each
  key once.

  The backing file is absent (\<open>None\<close>) or has a content. A content that decodes as UTF-8
  is modelled by the text it decodes to: strict UTF-8 decoding is one-to-one, so two such
  contents are equal exactly when their texts are, and writing a text gives the content
  that decodes to it. \<open>Undecodable\<close> stands for every content that does not decode: reading
  it raises (\<open>UnicodeDecodeError\<close>, or an error of the reader on the text before the
  undecodable bytes).
\<close>

type_synonym employee = "(string \<times> ustring) list"

datatype content = Text ustring | Undecodable

type_synonym data_file = "content option"

definition FIELDNAMES :: "string list" where
  "FIELDNAMES = [''id'', ''name'', ''department'', ''role'']"

text \<open>\<open>d.get(k, dflt)\<close>\<close>

definition dict_get :: "employee \<Rightarrow> string \<Rightarrow> ustring \<Rightarrow> ustring" where
  "dict_get d k dflt = (case map_of d k of None \<Rightarrow> dflt | Some v \<Rightarrow> v)"

text \<open>
  \<open>dict(pairs)\<close>: the pairs are stored in order, a later value replacing an earlier one
  of the same key.
\<close>

definition dict_of :: "(string \<times> ustring) list \<Rightarrow> employee" where
  "dict_of pairs = foldl (\<lambda>d (k, v). AList.update k v d) [] pairs"

definition ensure_data_file :: "data_file \<Rightarrow> data_file" where
  "ensure_data_file fs = (case fs of None \<Rightarrow> Some (Text []) | Some c \<Rightarrow> Some c)"

text \<open>\<open>while len(parts) < 4: parts.append("")\<close>\<close>

function pad_parts :: "ustring list \<Rightarrow> ustring list" where
  "pad_parts parts = (if length parts < 4 then pad_parts (parts @ [[]]) else parts)"
  by pat_completeness auto
termination
  by (relation "measure (\<lambda>parts. 4 - length parts)") auto

declare pad_parts.simps [simp del]

definition emp_of_row :: "ustring list \<Rightarrow> employee" where
  "emp_of_row row = dict_of (zip FIELDNAMES (take 4 (pad_parts (map strip row))))"

text \<open>The loop of \<open>load_employees\<close> over the rows of the reader.\<close>

fun load_rows :: "ustring list list \<Rightarrow> employee list \<Rightarrow> employee list" where
  "load_rows [] employees = employees"
| "load_rows (row # rows) employees =
     (if row = [] then load_rows rows employees
      else load_rows rows (employees @ [emp_of_row row]))"

text \<open>
  \<open>load_employees\<close>: the file is created when absent, then opened (\<open>open\<close> raises
  \<open>FileNotFoundError\<close> on an absent file, which cannot be the case after
  \<open>ensure_data_file\<close>) and read through the reader. Reading raises on a content that does
  not decode, and raises the reader's error on a text it refuses.
\<close>

definition load_employees :: "data_file \<Rightarrow> (error + employee list) \<times> data_file" where
  "load_employees fs =
     (let fs1 = ensure_data_file fs in
      (case fs1 of
         None \<Rightarrow> (Inl FileNotFoundError, fs1)
       | Some Undecodable \<Rightarrow> (Inl UnicodeDecodeError, fs1)
       | Some (Text text) \<Rightarrow>
           (case csv_reader (readlines text) of
              Inl e \<Rightarrow> (Inl e, fs1)
            | Inr rows \<Rightarrow> (Inr (load_rows rows []), fs1))))"

definition emp_row :: "employee \<Rightarrow> ustring list" where
  "emp_row e = [dict_get e ''id'' [], dict_get e ''name'' [],
                dict_get e ''department'' [], dict_get e ''role'' []]"

text \<open>The rows written to the temporary file, one \<open>writerow\<close> per employee.\<close>

fun write_rows :: "employee list \<Rightarrow> ustring \<Rightarrow> ustring" where
  "write_rows [] tmp = tmp"
| "write_rows (e # es) tmp = write_rows es (tmp @ writerow (emp_row e))"

text \<open>
  \<open>atomic_save_employees\<close>: the temporary file is created empty, written, and moved over
  the backing file, whose text is then the temporary file's.
\<close>

definition atomic_save_employees :: "employee list \<Rightarrow> data_file \<Rightarrow> data_file" where
  "atomic_save_employees employees fs = Some (Text (write_rows employees []))"

fun find_employee_by_id :: "ustring \<Rightarrow> employee list \<Rightarrow> employee option" where
  "find_employee_by_id emp_id [] = None"
| "find_employee_by_id emp_id (e # es) =
     (if map_of e ''id'' = Some emp_id then Some e else find_employee_by_id emp_id es)"

text \<open>Python's truth value of the result: \<open>None\<close> is false, a dict is false only when empty.\<close>

definition truthy :: "employee option \<Rightarrow> bool" where
  "truthy r = (case r of None \<Rightarrow> False | Some e \<Rightarrow> e \<noteq> [])"

definition add_employee :: "employee \<Rightarrow> data_file \<Rightarrow> (error + bool \<times> string) \<times> data_file" where
  "add_employee emp_dict fs =
     (case load_employees fs of
        (Inl e, fs1) \<Rightarrow> (Inl e, fs1)
      | (Inr employees, fs1) \<Rightarrow>
          if truthy (find_employee_by_id (strip (dict_get emp_dict ''id'' [])) employees)
          then (Inr (False, ''ID already exists''), fs1)
          else (Inr (True, ''Added''), atomic_save_employees (employees @ [emp_dict]) fs1))"

definition delete_employee :: "ustring \<Rightarrow> data_file \<Rightarrow> (error + bool \<times> string) \<times> data_file" where
  "delete_employee emp_id fs =
     (case load_employees fs of
        (Inl e, fs1) \<Rightarrow> (Inl e, fs1)
      | (Inr employees, fs1) \<Rightarrow>
          (let n_before = length employees;
               employees' = filter (\<lambda>e. map_of e ''id'' \<noteq> Some emp_id) employees
           in if length employees' = n_before
              then (Inr (False, ''ID not found''), fs1)
              else (Inr (True, ''Deleted''), atomic_save_employees employees' fs1)))"

text \<open>
  The loop of \<open>update_employee\<close> from index \<open>i\<close> on: it returns early on a colliding id
  (\<open>Inl\<close>), or ends with the list and the flag \<open>found\<close>.
\<close>

function update_loop ::
  "ustring \<Rightarrow> employee \<Rightarrow> employee list \<Rightarrow> nat \<Rightarrow> (bool \<times> string) + (employee list \<times> bool)" where
  "update_loop emp_id updated_dict employees i =
     (if i < length employees then
        (if map_of (employees ! i) ''id'' = Some emp_id then
           (let new_id = strip (dict_get updated_dict ''id'' emp_id)
            in if new_id \<noteq> emp_id \<and> truthy (find_employee_by_id new_id employees)
               then Inl (False, ''Target ID already exists'')
               else Inr (employees[i := updated_dict], True))
         else update_loop emp_id updated_dict employees (Suc i))
      else Inr (employees, False))"
  by pat_completeness auto
termination
  by (relation "measure (\<lambda>(emp_id, updated_dict, employees, i). length employees - i)") auto

declare update_loop.simps [simp del]

definition update_employee ::
  "ustring \<Rightarrow> employee \<Rightarrow> data_file \<Rightarrow> (error + bool \<times> string) \<times> data_file" where
  "update_employee emp_id updated_dict fs =
     (case load_employees fs of
        (Inl e, fs1) \<Rightarrow> (Inl e, fs1)
      | (Inr employees, fs1) \<Rightarrow>
          (case update_loop emp_id updated_dict employees 0 of
             Inl res \<Rightarrow> (Inr res, fs1)
           | Inr (employees', found) \<Rightarrow>
               if \<not> found then (Inr (False, ''ID not found''), fs1)
               else (Inr (True, ''Updated''), atomic_save_employees employees' fs1)))"

section \<open>Auxiliary notions for the proofs\<close>

text \<open>The \<open>i\<close>-th part of a row as \<open>load_employees\<close> keeps it: stripped, empty when missing.\<close>

definition nth_part :: "ustring list \<Rightarrow> nat \<Rightarrow> ustring" where
  "nth_part row i = (if i < length row then strip (row ! i) else [])"

text \<open>A record as it is read back after being saved: its four fields, stripped.\<close>

definition as_stored :: "employee \<Rightarrow> employee" where
  "as_stored e = emp_of_row (emp_row e)"

text \<open>A record whose four fields, as they are written, are within the reader's field size limit.\<close>

definition within_limit :: "employee \<Rightarrow> bool" where
  "within_limit e \<longleftrightarrow> (\<forall>f \<in> set (emp_row e). length f \<le> field_size_limit)"

text \<open>The invariant of the collection: no two records with the same id.\<close>

definition unique_ids :: "employee list \<Rightarrow> bool" where
  "unique_ids es = distinct (map (\<lambda>e. dict_get e ''id'' []) es)"

text \<open>The collection a load returns (the persisted collection).\<close>

definition persisted :: "data_file \<Rightarrow> employee list" where
  "persisted fs = (case fst (load_employees fs) of Inl e \<Rightarrow> [] | Inr employees \<Rightarrow> employees)"

text \<open>
  A result of the reader on a text: rows, or the field size limit error, which needs more
  than \<open>field_size_limit\<close> characters (\<open>n\<close> bounds the characters at hand).
\<close>

definition reads_or_limit :: "nat \<Rightarrow> error + 'a \<Rightarrow> bool" where
  "reads_or_limit n x \<longleftrightarrow> (\<exists>rows. x = Inr rows) \<or> (x = Inl CsvFieldLimit \<and> field_size_limit < n)"

subsection \<open>The reader on a stream of characters and end-of-line signals\<close>

text \<open>
  For the proofs the lines are flattened: \<open>line_tokens b text\<close> is the stream the reader's
  machine sees for the text still to come, each character as \<open>Some c\<close> and \<open>None\<close>
  (\<open>EOL\<close>) after each line; \<open>b\<close> tells that the current line already has characters.
  \<open>Reader_tokens\<close> runs the machine over such a stream.
\<close>

fun line_tokens :: "bool \<Rightarrow> ustring \<Rightarrow> uchar option list" where
  "line_tokens b [] = (if b then [None] else [])"
| "line_tokens b (c # cs) =
     (if c = NL then Some c # None # line_tokens False cs
      else if c = CR then
        (case cs of
           [] \<Rightarrow> [Some c, None]
         | d # ds \<Rightarrow> if d = NL then Some c # Some d # None # line_tokens False ds
                    else Some c # None # line_tokens False cs)
      else Some c # line_tokens True cs)"

fun Reader_tokens :: "reader \<Rightarrow> uchar option list \<Rightarrow> error + ustring list list" where
  "Reader_tokens r [] =
     (if rd_field r \<noteq> [] \<or> rd_state r = IN_QUOTED_FIELD
      then Inr [rd_fields (parse_save_field r)] else Inr [])"
| "Reader_tokens r (t # ts) =
     (case parse_process_char r t of
        Inl e \<Rightarrow> Inl e
      | Inr r' \<Rightarrow>
          if t = None \<and> rd_state r' = START_RECORD then
            (case Reader_tokens parse_reset ts of
               Inl e \<Rightarrow> Inl e
             | Inr rows \<Rightarrow> Inr (rd_fields r' # rows))
          else Reader_tokens r' ts)"

section \<open>Characters\<close>

lemma code_uchr [simp]: "code (uchr c) = of_char c"
proof -
  have "(of_char c :: nat) < 256" by simp
  then have "(of_char c :: nat) < 0xD800" by linarith
  then have "(of_char c :: nat) \<in> {n. n < 0xD800 \<or> (0xE000 \<le> n \<and> n < 0x110000)}" by blast
  then show ?thesis unfolding uchr_def by (rule uchar_of_inverse)
qed

lemma uchr_inject [simp]: "uchr c = uchr d \<longleftrightarrow> c = d"
proof
  assume "uchr c = uchr d"
  then have "code (uchr c) = code (uchr d)" by simp
  then show "c = d" by simp
qed simp

lemma isspace_uchr:
  "isspace (uchr c) \<longleftrightarrow> c \<in> set [CHR 0x09, CHR 0x0A, CHR 0x0B, CHR 0x0C, CHR 0x0D,
      CHR 0x1C, CHR 0x1D, CHR 0x1E, CHR 0x1F, CHR 0x20, CHR 0x85, CHR 0xA0]"
proof -
  have small: "n < 256 \<Longrightarrow> n \<in> set [0x09, 0x0A, 0x0B, 0x0C, 0x0D, 0x1C, 0x1D, 0x1E, 0x1F, 0x20,
      0x85, 0xA0, 0x1680, 0x2000, 0x2001, 0x2002, 0x2003, 0x2004, 0x2005, 0x2006, 0x2007,
      0x2008, 0x2009, 0x200A, 0x2028, 0x2029, 0x202F, 0x205F, 0x3000] \<longleftrightarrow>
      n \<in> set [0x09, 0x0A, 0x0B, 0x0C, 0x0D, 0x1C, 0x1D, 0x1E, 0x1F, 0x20, 0x85, 0xA0]" for n :: nat
    by auto
  have lit: "map of_char [CHR 0x09, CHR 0x0A, CHR 0x0B, CHR 0x0C, CHR 0x0D,
      CHR 0x1C, CHR 0x1D, CHR 0x1E, CHR 0x1F, CHR 0x20, CHR 0x85, CHR 0xA0] =
      [0x09, 0x0A, 0x0B, 0x0C, 0x0D, 0x1C, 0x1D, 0x1E, 0x1F, 0x20, 0x85, 0xA0 :: nat]"
    by simp
  have "(of_char c :: nat) < 256" by simp
  then have "isspace (uchr c) \<longleftrightarrow> (of_char c :: nat) \<in> set (map of_char [CHR 0x09, CHR 0x0A, CHR 0x0B, CHR 0x0C, CHR 0x0D,
      CHR 0x1C, CHR 0x1D, CHR 0x1E, CHR 0x1F, CHR 0x20, CHR 0x85, CHR 0xA0])"
    unfolding lit isspace_def code_uchr by (rule small)
  also have "\<dots> \<longleftrightarrow> c \<in> set [CHR 0x09, CHR 0x0A, CHR 0x0B, CHR 0x0C, CHR 0x0D,
      CHR 0x1C, CHR 0x1D, CHR 0x1E, CHR 0x1F, CHR 0x20, CHR 0x85, CHR 0xA0]"
    unfolding set_map by (simp only: inj_image_mem_iff [OF inj_of_char])
  finally show ?thesis .
qed

section \<open>The reader fails on a text only by the field size limit\<close>

lemma tokens_of_lines:
  "concat (map (\<lambda>l. map Some l @ [None]) (readlines_from cur s)) =
   map Some cur @ line_tokens (cur \<noteq> []) s"
  by (induction cur s rule: readlines_from.induct) (auto split: list.splits)

lemma Reader_tokens_line:
  "Reader_tokens r (map Some l @ None # ts) =
     (case parse_line r l of
        Inl e \<Rightarrow> Inl e
      | Inr r' \<Rightarrow>
          if rd_state r' = START_RECORD then
            (case Reader_tokens parse_reset ts of
               Inl e \<Rightarrow> Inl e
             | Inr rows \<Rightarrow> Inr (rd_fields r' # rows))
          else Reader_tokens r' ts)"
  by (induction l arbitrary: r) (auto simp: parse_line_def split: sum.splits)

lemma Reader_iter_tokens:
  "Reader_iter r ls = Reader_tokens r (concat (map (\<lambda>l. map Some l @ [None]) ls))"
  by (induction r ls rule: Reader_iter.induct) (auto simp: Reader_tokens_line split: sum.splits)

lemma csv_reader_tokens: "csv_reader (readlines text) = Reader_tokens parse_reset (line_tokens False text)"
  by (simp add: csv_reader_def readlines_def Reader_iter_tokens tokens_of_lines)

lemma ppc_eol:
  "\<exists>r'. parse_process_char r None = Inr r' \<and>
     (rd_state r' = START_RECORD \<or> rd_state r' = IN_QUOTED_FIELD) \<and>
     length (rd_field r') \<le> length (rd_field r)"
  by (cases "rd_state r") (auto simp: parse_process_char_def start_field_def parse_save_field_def)

lemma ppc_plain:
  "c \<noteq> NL \<Longrightarrow> c \<noteq> CR \<Longrightarrow> rd_state r \<noteq> EAT_CRNL \<Longrightarrow>
   (parse_process_char r (Some c) = Inl CsvFieldLimit \<and> field_size_limit \<le> length (rd_field r)) \<or>
   (\<exists>r'. parse_process_char r (Some c) = Inr r' \<and> rd_state r' \<noteq> EAT_CRNL \<and>
      length (rd_field r') \<le> Suc (length (rd_field r)))"
  by (cases "rd_state r")
    (auto simp: parse_process_char_def start_field_def parse_save_field_def parse_add_char_def)

lemma ppc_break:
  "c = NL \<or> c = CR \<Longrightarrow>
   (parse_process_char r (Some c) = Inl CsvFieldLimit \<and> field_size_limit \<le> length (rd_field r)) \<or>
   (\<exists>r'. parse_process_char r (Some c) = Inr r' \<and>
      (rd_state r' = EAT_CRNL \<or> rd_state r' = IN_QUOTED_FIELD) \<and>
      length (rd_field r') \<le> Suc (length (rd_field r)))"
  by (cases "rd_state r")
    (auto simp: parse_process_char_def start_field_def parse_save_field_def parse_add_char_def)

lemma reads_or_limit_mono: "reads_or_limit n x \<Longrightarrow> n \<le> m \<Longrightarrow> reads_or_limit m x"
  by (auto simp: reads_or_limit_def)

lemma reads_or_limit_row:
  "reads_or_limit m x \<Longrightarrow>
   reads_or_limit m (case x of Inl e \<Rightarrow> Inl e | Inr rows \<Rightarrow> Inr (row # rows))"
  by (auto simp: reads_or_limit_def)

lemma eol_step:
  assumes "\<And>r'. rd_state r' \<noteq> EAT_CRNL \<Longrightarrow> length (rd_field r') \<le> length (rd_field r) \<Longrightarrow>
             reads_or_limit m (Reader_tokens r' ts)"
  shows "reads_or_limit m (Reader_tokens r (None # ts))"
proof -
  obtain r' where r': "parse_process_char r None = Inr r'"
    and st: "rd_state r' = START_RECORD \<or> rd_state r' = IN_QUOTED_FIELD"
    and len: "length (rd_field r') \<le> length (rd_field r)"
    using ppc_eol by blast
  have "reads_or_limit m (Reader_tokens parse_reset ts)"
    by (rule assms) (simp_all add: parse_reset_def)
  then have 0: "reads_or_limit m (case Reader_tokens parse_reset ts of
      Inl e \<Rightarrow> Inl e | Inr rows \<Rightarrow> Inr (rd_fields r' # rows))"
    by (rule reads_or_limit_row)
  have 1: "reads_or_limit m (Reader_tokens r' ts)"
    using st len by (intro assms) auto
  show ?thesis using r' 0 1 by simp
qed

lemma break_step:
  assumes "c = NL \<or> c = CR" and "length (rd_field r) < m"
    and "\<And>r'. rd_state r' = EAT_CRNL \<or> rd_state r' = IN_QUOTED_FIELD \<Longrightarrow>
           length (rd_field r') \<le> Suc (length (rd_field r)) \<Longrightarrow>
           reads_or_limit m (Reader_tokens r' ts)"
  shows "reads_or_limit m (Reader_tokens r (Some c # ts))"
  using ppc_break [OF assms(1), of r]
proof
  assume "parse_process_char r (Some c) = Inl CsvFieldLimit \<and> field_size_limit \<le> length (rd_field r)"
  then show ?thesis using assms(2) by (simp add: reads_or_limit_def)
next
  assume "\<exists>r'. parse_process_char r (Some c) = Inr r' \<and>
      (rd_state r' = EAT_CRNL \<or> rd_state r' = IN_QUOTED_FIELD) \<and>
      length (rd_field r') \<le> Suc (length (rd_field r))"
  then obtain r' where "parse_process_char r (Some c) = Inr r'"
    "rd_state r' = EAT_CRNL \<or> rd_state r' = IN_QUOTED_FIELD"
    "length (rd_field r') \<le> Suc (length (rd_field r))" by blast
  then show ?thesis using assms(3) [of r'] by simp
qed

lemma plain_step:
  assumes "c \<noteq> NL" "c \<noteq> CR" "rd_state r \<noteq> EAT_CRNL" and "length (rd_field r) < m"
    and "\<And>r'. rd_state r' \<noteq> EAT_CRNL \<Longrightarrow> length (rd_field r') \<le> Suc (length (rd_field r)) \<Longrightarrow>
           reads_or_limit m (Reader_tokens r' ts)"
  shows "reads_or_limit m (Reader_tokens r (Some c # ts))"
  using ppc_plain [OF assms(1,2,3)]
proof
  assume "parse_process_char r (Some c) = Inl CsvFieldLimit \<and> field_size_limit \<le> length (rd_field r)"
  then show ?thesis using assms(4) by (simp add: reads_or_limit_def)
next
  assume "\<exists>r'. parse_process_char r (Some c) = Inr r' \<and> rd_state r' \<noteq> EAT_CRNL \<and>
      length (rd_field r') \<le> Suc (length (rd_field r))"
  then obtain r' where "parse_process_char r (Some c) = Inr r'" "rd_state r' \<noteq> EAT_CRNL"
    "length (rd_field r') \<le> Suc (length (rd_field r))" by blast
  then show ?thesis using assms(5) [of r'] by simp
qed

lemma Reader_tokens_end: "reads_or_limit m (Reader_tokens r [])"
  by (simp add: reads_or_limit_def)

lemma Reader_tokens_reads:
  "rd_state r \<noteq> EAT_CRNL \<Longrightarrow>
   reads_or_limit (length (rd_field r) + length s) (Reader_tokens r (line_tokens b s))"
proof (induction b s arbitrary: r rule: line_tokens.induct)
  case (1 b)
  show ?case
  proof (cases b)
    case True
    have "reads_or_limit (length (rd_field r) + 0) (Reader_tokens r (None # []))"
      by (rule eol_step) (rule Reader_tokens_end)
    with True show ?thesis by simp
  next
    case False
    then show ?thesis by (simp add: reads_or_limit_def)
  qed
next
  case (2 b c cs)
  let ?m = "length (rd_field r) + length (c # cs)"
  have rest: "reads_or_limit ?m (Reader_tokens r' (line_tokens b' cs'))"
    if "rd_state r' \<noteq> EAT_CRNL" "length (rd_field r') + length cs' \<le> ?m"
      and "\<And>r''. rd_state r'' \<noteq> EAT_CRNL \<Longrightarrow>
        reads_or_limit (length (rd_field r'') + length cs') (Reader_tokens r'' (line_tokens b' cs'))"
    for r' b' cs'
    using that(3) [OF that(1)] that(2) by (rule reads_or_limit_mono)
  consider (nl) "c = NL" | (cr_end) "c = CR" "cs = []"
    | (crnl) ds where "c = CR" "cs = NL # ds"
    | (cr) d ds where "c = CR" "cs = d # ds" "d \<noteq> NL"
    | (plain) "c \<noteq> NL" "c \<noteq> CR"
    by (cases cs) auto
  then show ?case
  proof cases
    case nl
    have "reads_or_limit ?m (Reader_tokens r (Some c # None # line_tokens False cs))"
    proof (rule break_step)
      fix r1 :: reader assume r1: "length (rd_field r1) \<le> Suc (length (rd_field r))"
      show "reads_or_limit ?m (Reader_tokens r1 (None # line_tokens False cs))"
      proof (rule eol_step)
        fix r2 :: reader assume "rd_state r2 \<noteq> EAT_CRNL" "length (rd_field r2) \<le> length (rd_field r1)"
        then show "reads_or_limit ?m (Reader_tokens r2 (line_tokens False cs))"
          using r1 nl by (intro rest "2.IH"(1)) auto
      qed
    qed (use nl in auto)
    with nl show ?thesis by simp
  next
    case cr_end
    have "reads_or_limit ?m (Reader_tokens r (Some c # None # []))"
      using cr_end by (intro break_step eol_step Reader_tokens_end) auto
    with cr_end show ?thesis by simp
  next
    case crnl
    have "reads_or_limit ?m (Reader_tokens r (Some c # Some NL # None # line_tokens False ds))"
    proof (rule break_step)
      fix r1 :: reader assume r1: "length (rd_field r1) \<le> Suc (length (rd_field r))"
      show "reads_or_limit ?m (Reader_tokens r1 (Some NL # None # line_tokens False ds))"
      proof (rule break_step)
        fix r2 :: reader assume r2: "length (rd_field r2) \<le> Suc (length (rd_field r1))"
        show "reads_or_limit ?m (Reader_tokens r2 (None # line_tokens False ds))"
        proof (rule eol_step)
          fix r3 :: reader assume "rd_state r3 \<noteq> EAT_CRNL" "length (rd_field r3) \<le> length (rd_field r2)"
          then show "reads_or_limit ?m (Reader_tokens r3 (line_tokens False ds))"
            using r1 r2 crnl by (intro rest "2.IH"(2)) auto
        qed
      qed (use r1 crnl in auto)
    qed (use crnl in auto)
    with crnl show ?thesis by simp
  next
    case cr
    have "reads_or_limit ?m (Reader_tokens r (Some c # None # line_tokens False cs))"
    proof (rule break_step)
      fix r1 :: reader assume r1: "length (rd_field r1) \<le> Suc (length (rd_field r))"
      show "reads_or_limit ?m (Reader_tokens r1 (None # line_tokens False cs))"
      proof (rule eol_step)
        fix r2 :: reader assume "rd_state r2 \<noteq> EAT_CRNL" "length (rd_field r2) \<le> length (rd_field r1)"
        then show "reads_or_limit ?m (Reader_tokens r2 (line_tokens False cs))"
          using r1 cr by (intro rest "2.IH"(3)) auto
      qed
    qed (use cr in auto)
    with cr show ?thesis by simp
  next
    case plain
    have "reads_or_limit ?m (Reader_tokens r (Some c # line_tokens True cs))"
    proof (rule plain_step)
      fix r1 :: reader assume "rd_state r1 \<noteq> EAT_CRNL" "length (rd_field r1) \<le> Suc (length (rd_field r))"
      then show "reads_or_limit ?m (Reader_tokens r1 (line_tokens True cs))"
        using plain by (intro rest "2.IH"(4)) auto
    qed (use plain "2.prems" in auto)
    with plain show ?thesis by simp
  qed
qed

lemma csv_reader_reads: "reads_or_limit (length text) (csv_reader (readlines text))"
  using Reader_tokens_reads [of parse_reset "text" False]
  by (simp add: csv_reader_tokens parse_reset_def)

lemma csv_reader_error: "csv_reader (readlines text) = Inl e \<Longrightarrow> e = CsvFieldLimit"
  using csv_reader_reads [of "text"] by (auto simp: reads_or_limit_def)

lemma csv_reader_short:
  "length text \<le> field_size_limit \<Longrightarrow> \<exists>rows. csv_reader (readlines text) = Inr rows"
  using csv_reader_reads [of "text"] by (auto simp: reads_or_limit_def)

section \<open>The reader reads back what the writer wrote\<close>

lemma limit_pos: "0 < field_size_limit"
  by (simp add: field_size_limit_def)

lemma Reader_tokens_char:
  "Reader_tokens r (Some c # ts) =
     (case parse_process_char r (Some c) of Inl e \<Rightarrow> Inl e | Inr r' \<Rightarrow> Reader_tokens r' ts)"
  by (simp split: sum.splits)

lemma Reader_tokens_eol:
  "Reader_tokens r (None # ts) =
     (case parse_process_char r None of
        Inl e \<Rightarrow> Inl e
      | Inr r' \<Rightarrow>
          if rd_state r' = START_RECORD then
            (case Reader_tokens parse_reset ts of
               Inl e \<Rightarrow> Inl e
             | Inr rows \<Rightarrow> Inr (rd_fields r' # rows))
          else Reader_tokens r' ts)"
  by (simp split: sum.splits)

declare Reader_tokens.simps(2) [simp del]

lemma quoted_eol:
  "rd_state r = IN_QUOTED_FIELD \<Longrightarrow> Reader_tokens r (None # ts) = Reader_tokens r ts"
  by (simp add: Reader_tokens_eol parse_process_char_def)

lemma quoted_char:
  "rd_state r = IN_QUOTED_FIELD \<Longrightarrow> c \<noteq> QUOTECHAR \<Longrightarrow>
   Reader_tokens r (Some c # ts) =
     (if field_size_limit \<le> length (rd_field r) then Inl CsvFieldLimit
      else Reader_tokens (r\<lparr>rd_field := rd_field r @ [c]\<rparr>) ts)"
  by (simp add: Reader_tokens_char parse_process_char_def parse_add_char_def)

lemma quoted_close:
  "rd_state r = IN_QUOTED_FIELD \<Longrightarrow>
   Reader_tokens r (Some QUOTECHAR # ts) = Reader_tokens (r\<lparr>rd_state := QUOTE_IN_QUOTED_FIELD\<rparr>) ts"
  by (simp add: Reader_tokens_char parse_process_char_def)

lemma same_state: "rd_state r = s \<Longrightarrow> r\<lparr>rd_field := x, rd_state := s\<rparr> = r\<lparr>rd_field := x\<rparr>"
  by (cases r) simp

lemma quoted_quote:
  assumes "rd_state r = IN_QUOTED_FIELD"
  shows "Reader_tokens r (Some QUOTECHAR # Some QUOTECHAR # ts) =
     (if field_size_limit \<le> length (rd_field r) then Inl CsvFieldLimit
      else Reader_tokens (r\<lparr>rd_field := rd_field r @ [QUOTECHAR]\<rparr>) ts)"
  using assms
  by (simp add: Reader_tokens_char parse_process_char_def parse_add_char_def same_state)

lemma quoted_body:
  "rd_state r = IN_QUOTED_FIELD \<Longrightarrow> length (rd_field r) \<le> field_size_limit \<Longrightarrow>
   Reader_tokens r (line_tokens b (double_quotes f @ QUOTECHAR # rest)) =
     (if length (rd_field r) + length f \<le> field_size_limit
      then Reader_tokens (r\<lparr>rd_field := rd_field r @ f, rd_state := QUOTE_IN_QUOTED_FIELD\<rparr>)
             (line_tokens True rest)
      else Inl CsvFieldLimit)"
proof (induction "length f" arbitrary: f r b rule: less_induct)
  case less
  note st = \<open>rd_state r = IN_QUOTED_FIELD\<close> and le = \<open>length (rd_field r) \<le> field_size_limit\<close>
  let ?goal = "\<lambda>x. x = (if length (rd_field r) + length f \<le> field_size_limit
      then Reader_tokens (r\<lparr>rd_field := rd_field r @ f, rd_state := QUOTE_IN_QUOTED_FIELD\<rparr>)
             (line_tokens True rest)
      else Inl CsvFieldLimit)"
  show ?case
  proof (cases f)
    case Nil
    then show ?thesis using st le by (simp add: quoted_close)
  next
    case (Cons c f')
    have step: "?goal (Reader_tokens (r\<lparr>rd_field := rd_field r @ [c]\<rparr>)
        (line_tokens b' (double_quotes f' @ QUOTECHAR # rest)))"
      if "\<not> field_size_limit \<le> length (rd_field r)" for b'
      using less(1) [of f' "r\<lparr>rd_field := rd_field r @ [c]\<rparr>" b'] st Cons that by simp
    have full: "?goal (Inl CsvFieldLimit)" if "field_size_limit \<le> length (rd_field r)"
      using that Cons by simp
    consider (quote) "c = QUOTECHAR" | (nl) "c = NL" | (cr_nl) f'' where "c = CR" "f' = NL # f''"
      | (cr) "c = CR" "f' = [] \<or> hd f' \<noteq> NL" | (plain) "c \<noteq> QUOTECHAR" "c \<noteq> NL" "c \<noteq> CR"
      by (cases f') auto
    then show ?thesis
    proof cases
      case quote
      have "Reader_tokens r (line_tokens b (double_quotes f @ QUOTECHAR # rest)) =
        (if field_size_limit \<le> length (rd_field r) then Inl CsvFieldLimit
         else Reader_tokens (r\<lparr>rd_field := rd_field r @ [c]\<rparr>)
                (line_tokens True (double_quotes f' @ QUOTECHAR # rest)))"
        using quote st Cons by (simp add: quoted_quote)
      then show ?thesis using step [of True] full by (simp split: if_splits)
    next
      case nl
      have "Reader_tokens r (line_tokens b (double_quotes f @ QUOTECHAR # rest)) =
        (if field_size_limit \<le> length (rd_field r) then Inl CsvFieldLimit
         else Reader_tokens (r\<lparr>rd_field := rd_field r @ [c]\<rparr>)
                (line_tokens False (double_quotes f' @ QUOTECHAR # rest)))"
        using nl st Cons by (simp add: quoted_char quoted_eol)
      then show ?thesis using step [of False] full by (simp split: if_splits)
    next
      case cr_nl
      let ?r1 = "r\<lparr>rd_field := rd_field r @ [c]\<rparr>"
      let ?r2 = "r\<lparr>rd_field := rd_field r @ [c, NL]\<rparr>"
      have lhs: "Reader_tokens r (line_tokens b (double_quotes f @ QUOTECHAR # rest)) =
        (if field_size_limit \<le> Suc (length (rd_field r)) then Inl CsvFieldLimit
         else Reader_tokens ?r2 (line_tokens False (double_quotes f'' @ QUOTECHAR # rest)))"
        using cr_nl st Cons by (simp add: quoted_char quoted_eol)
      have "?goal (Reader_tokens ?r2 (line_tokens False (double_quotes f'' @ QUOTECHAR # rest)))"
        if "\<not> field_size_limit \<le> Suc (length (rd_field r))"
        using less(1) [of f'' ?r2 False] st Cons cr_nl that by simp
      moreover have "?goal (Inl CsvFieldLimit)" if "field_size_limit \<le> Suc (length (rd_field r))"
        using that Cons cr_nl by simp
      ultimately show ?thesis using lhs by (simp split: if_splits)
    next
      case cr
      then have "line_tokens b (CR # double_quotes f' @ QUOTECHAR # rest) =
          Some CR # None # line_tokens False (double_quotes f' @ QUOTECHAR # rest)"
        by (cases f') auto
      then have "Reader_tokens r (line_tokens b (double_quotes f @ QUOTECHAR # rest)) =
        (if field_size_limit \<le> length (rd_field r) then Inl CsvFieldLimit
         else Reader_tokens (r\<lparr>rd_field := rd_field r @ [c]\<rparr>)
                (line_tokens False (double_quotes f' @ QUOTECHAR # rest)))"
        using cr st Cons by (simp add: quoted_char quoted_eol del: line_tokens.simps)
      then show ?thesis using step [of False] full by (simp split: if_splits)
    next
      case plain
      have "Reader_tokens r (line_tokens b (double_quotes f @ QUOTECHAR # rest)) =
        (if field_size_limit \<le> length (rd_field r) then Inl CsvFieldLimit
         else Reader_tokens (r\<lparr>rd_field := rd_field r @ [c]\<rparr>)
                (line_tokens True (double_quotes f' @ QUOTECHAR # rest)))"
        using plain st Cons by (simp add: quoted_char)
      then show ?thesis using step [of True] full by (simp split: if_splits)
    qed
  qed
qed

lemma needs_quote_Cons:
  "needs_quote (c # f) \<longleftrightarrow> c = DELIMITER \<or> c = QUOTECHAR \<or> c = CR \<or> c = NL \<or> needs_quote f"
  by (auto simp: needs_quote_def)

lemma needs_quote_Nil: "\<not> needs_quote []"
  by (simp add: needs_quote_def)

lemma field_char:
  "rd_state r = IN_FIELD \<Longrightarrow> c \<noteq> DELIMITER \<Longrightarrow> c \<noteq> CR \<Longrightarrow> c \<noteq> NL \<Longrightarrow>
   Reader_tokens r (Some c # ts) =
     (if field_size_limit \<le> length (rd_field r) then Inl CsvFieldLimit
      else Reader_tokens (r\<lparr>rd_field := rd_field r @ [c]\<rparr>) ts)"
  by (simp add: Reader_tokens_char parse_process_char_def parse_add_char_def)

lemma unquoted_body:
  "rd_state r = IN_FIELD \<Longrightarrow> \<not> needs_quote f \<Longrightarrow> length (rd_field r) \<le> field_size_limit \<Longrightarrow>
   Reader_tokens r (line_tokens b (f @ rest)) =
     (if length (rd_field r) + length f \<le> field_size_limit
      then Reader_tokens (r\<lparr>rd_field := rd_field r @ f\<rparr>) (line_tokens (b \<or> f \<noteq> []) rest)
      else Inl CsvFieldLimit)"
proof (induction f arbitrary: r b)
  case Nil
  then show ?case by simp
next
  case (Cons c f)
  from Cons.prems have c: "c \<noteq> DELIMITER" "c \<noteq> CR" "c \<noteq> NL" and f: "\<not> needs_quote f"
    by (auto simp: needs_quote_Cons)
  have lhs: "Reader_tokens r (line_tokens b ((c # f) @ rest)) =
     (if field_size_limit \<le> length (rd_field r) then Inl CsvFieldLimit
      else Reader_tokens (r\<lparr>rd_field := rd_field r @ [c]\<rparr>) (line_tokens True (f @ rest)))"
    using c Cons.prems(1) by (simp add: field_char)
  have "Reader_tokens (r\<lparr>rd_field := rd_field r @ [c]\<rparr>) (line_tokens True (f @ rest)) =
     (if Suc (length (rd_field r)) + length f \<le> field_size_limit
      then Reader_tokens (r\<lparr>rd_field := rd_field r @ c # f\<rparr>) (line_tokens True rest)
      else Inl CsvFieldLimit)"
    if "\<not> field_size_limit \<le> length (rd_field r)"
    using Cons.IH [of "r\<lparr>rd_field := rd_field r @ [c]\<rparr>" True] Cons.prems(1) f that by simp
  then show ?case unfolding lhs by (simp split: if_splits)
qed


lemma field_text:
  assumes "r = \<lparr>rd_state = START_FIELD, rd_fields = fl, rd_field = []\<rparr> \<or>
           r = \<lparr>rd_state = START_RECORD, rd_fields = fl, rd_field = []\<rparr>"
  shows "(length f \<le> field_size_limit \<and>
          (\<exists>r'. (\<forall>b rest. Reader_tokens r (line_tokens b (join_append_data f @ rest)) =
                 Reader_tokens r' (line_tokens (b \<or> join_append_data f \<noteq> []) rest)) \<and>
              (r' = \<lparr>rd_state = QUOTE_IN_QUOTED_FIELD, rd_fields = fl, rd_field = f\<rparr> \<or>
               r' = \<lparr>rd_state = IN_FIELD, rd_fields = fl, rd_field = f\<rparr> \<or>
               r' = r \<and> f = [] \<and> join_append_data f = []))) \<or>
         (field_size_limit < length f \<and>
          (\<forall>b rest. Reader_tokens r (line_tokens b (join_append_data f @ rest)) = Inl CsvFieldLimit))"
proof (cases "needs_quote f")
  case True
  let ?q = "\<lparr>rd_state = IN_QUOTED_FIELD, rd_fields = fl, rd_field = []\<rparr>"
  have open_quote: "Reader_tokens r (Some QUOTECHAR # ts) = Reader_tokens ?q ts" for ts
    using assms by (auto simp: Reader_tokens_char parse_process_char_def start_field_def)
  have "Reader_tokens r (line_tokens b (join_append_data f @ rest)) =
        (if length f \<le> field_size_limit
         then Reader_tokens \<lparr>rd_state = QUOTE_IN_QUOTED_FIELD, rd_fields = fl, rd_field = f\<rparr>
                (line_tokens (b \<or> join_append_data f \<noteq> []) rest)
         else Inl CsvFieldLimit)" for b rest
    using True quoted_body [of ?q True f rest]
    by (simp add: join_append_data_def open_quote)
  then show ?thesis by (cases "length f \<le> field_size_limit") auto
next
  case False
  show ?thesis
  proof (cases f)
    case Nil
    have "\<forall>b rest. Reader_tokens r (line_tokens b (join_append_data f @ rest)) =
                 Reader_tokens r (line_tokens (b \<or> join_append_data f \<noteq> []) rest)"
      using Nil False by (simp add: join_append_data_def)
    moreover have "join_append_data f = []" using Nil False by (simp add: join_append_data_def)
    moreover have "length f \<le> field_size_limit" using Nil by simp
    ultimately show ?thesis using Nil by blast
  next
    case (Cons c f')
    with False have c: "c \<noteq> DELIMITER" "c \<noteq> QUOTECHAR" "c \<noteq> CR" "c \<noteq> NL"
      and f': "\<not> needs_quote f'"
      by (auto simp: needs_quote_Cons)
    let ?u = "\<lparr>rd_state = IN_FIELD, rd_fields = fl, rd_field = [c]\<rparr>"
    have first: "Reader_tokens r (Some c # ts) = Reader_tokens ?u ts" for ts
      using assms c limit_pos
      by (auto simp: Reader_tokens_char parse_process_char_def start_field_def parse_add_char_def)
    have "1 \<le> field_size_limit" using limit_pos by simp
    then have "Reader_tokens r (line_tokens b (join_append_data f @ rest)) =
        (if length f \<le> field_size_limit
         then Reader_tokens \<lparr>rd_state = IN_FIELD, rd_fields = fl, rd_field = f\<rparr>
                (line_tokens (b \<or> join_append_data f \<noteq> []) rest)
         else Inl CsvFieldLimit)" for b rest
      using False c Cons unquoted_body [of ?u f' True rest, OF _ f']
      by (simp add: join_append_data_def first)
    then show ?thesis by (cases "length f \<le> field_size_limit") auto
  qed
qed

lemma field_then_delimiter:
  assumes "r = \<lparr>rd_state = START_FIELD, rd_fields = fl, rd_field = []\<rparr> \<or>
           r = \<lparr>rd_state = START_RECORD, rd_fields = fl, rd_field = []\<rparr>"
  shows "Reader_tokens r (line_tokens b (join_append_data f @ DELIMITER # rest)) =
     (if length f \<le> field_size_limit
      then Reader_tokens \<lparr>rd_state = START_FIELD, rd_fields = fl @ [f], rd_field = []\<rparr>
             (line_tokens True rest)
      else Inl CsvFieldLimit)"
proof -
  from field_text [OF assms, of f] consider (fits) r' where "length f \<le> field_size_limit"
      "\<And>b rest. Reader_tokens r (line_tokens b (join_append_data f @ rest)) =
                 Reader_tokens r' (line_tokens (b \<or> join_append_data f \<noteq> []) rest)"
      "r' = \<lparr>rd_state = QUOTE_IN_QUOTED_FIELD, rd_fields = fl, rd_field = f\<rparr> \<or>
       r' = \<lparr>rd_state = IN_FIELD, rd_fields = fl, rd_field = f\<rparr> \<or>
       r' = r \<and> f = [] \<and> join_append_data f = []"
    | (long) "\<not> length f \<le> field_size_limit"
      "\<And>b rest. Reader_tokens r (line_tokens b (join_append_data f @ rest)) = Inl CsvFieldLimit"
    by (auto simp: not_le)
  then show ?thesis
  proof cases
  case (fits r')
  have "Reader_tokens r' (Some DELIMITER # ts) =
        Reader_tokens \<lparr>rd_state = START_FIELD, rd_fields = fl @ [f], rd_field = []\<rparr> ts" for ts
    using fits(3) assms
    by (auto simp: Reader_tokens_char parse_process_char_def start_field_def parse_save_field_def)
  then show ?thesis using fits(1) by (simp add: fits(2))
  next
    case long
    then show ?thesis by simp
  qed
qed

lemma field_then_crnl:
  assumes "r = \<lparr>rd_state = START_FIELD, rd_fields = fl, rd_field = []\<rparr> \<or>
           r = \<lparr>rd_state = START_RECORD, rd_fields = fl, rd_field = []\<rparr> \<and> join_append_data f \<noteq> []"
  shows "Reader_tokens r (line_tokens b (join_append_data f @ CR # NL # rest)) =
     (if length f \<le> field_size_limit
      then (case Reader_tokens parse_reset (line_tokens False rest) of
              Inl e \<Rightarrow> Inl e
            | Inr rows \<Rightarrow> Inr ((fl @ [f]) # rows))
      else Inl CsvFieldLimit)"
proof -
  have r: "r = \<lparr>rd_state = START_FIELD, rd_fields = fl, rd_field = []\<rparr> \<or>
           r = \<lparr>rd_state = START_RECORD, rd_fields = fl, rd_field = []\<rparr>"
    using assms by blast
  from field_text [OF r, of f] consider (fits) r' where "length f \<le> field_size_limit"
      "\<And>b rest. Reader_tokens r (line_tokens b (join_append_data f @ rest)) =
                 Reader_tokens r' (line_tokens (b \<or> join_append_data f \<noteq> []) rest)"
      "r' = \<lparr>rd_state = QUOTE_IN_QUOTED_FIELD, rd_fields = fl, rd_field = f\<rparr> \<or>
       r' = \<lparr>rd_state = IN_FIELD, rd_fields = fl, rd_field = f\<rparr> \<or>
       r' = r \<and> f = [] \<and> join_append_data f = []"
    | (long) "\<not> length f \<le> field_size_limit"
      "\<And>b rest. Reader_tokens r (line_tokens b (join_append_data f @ rest)) = Inl CsvFieldLimit"
    by (auto simp: not_le)
  then show ?thesis
  proof cases
    case (fits r')
    have "Reader_tokens r' (Some CR # Some NL # None # ts) =
        (case Reader_tokens parse_reset ts of
            Inl e \<Rightarrow> Inl e
          | Inr rows \<Rightarrow> Inr ((fl @ [f]) # rows))" for ts
      using fits(3) assms
      by (auto simp: Reader_tokens_char Reader_tokens_eol parse_process_char_def start_field_def
          parse_save_field_def split: sum.splits)
    then show ?thesis using fits(1) by (simp add: fits(2))
  next
    case long
    then show ?thesis by simp
  qed
qed


lemma join_append_Suc:
  "join_append rec (Suc n) fs = rec @ concat (map (\<lambda>f. DELIMITER # join_append_data f) fs)"
  by (induction fs arbitrary: rec n) simp_all

lemma row_text:
  assumes "r = \<lparr>rd_state = START_FIELD, rd_fields = fl, rd_field = []\<rparr> \<or>
           r = \<lparr>rd_state = START_RECORD, rd_fields = fl, rd_field = []\<rparr> \<and>
             (join_append_data f \<noteq> [] \<or> fs \<noteq> [])"
  shows "Reader_tokens r
           (line_tokens b (join_append_data f @
              concat (map (\<lambda>f. DELIMITER # join_append_data f) fs) @ CR # NL # rest)) =
         (if \<forall>g \<in> set (f # fs). length g \<le> field_size_limit
          then (case Reader_tokens parse_reset (line_tokens False rest) of
                  Inl e \<Rightarrow> Inl e
                | Inr rows \<Rightarrow> Inr ((fl @ f # fs) # rows))
          else Inl CsvFieldLimit)"
  using assms
proof (induction fs arbitrary: r fl f b)
  case Nil
  then show ?case using field_then_crnl [of r fl f b rest] by auto
next
  case (Cons g gs)
  let ?tail = "concat (map (\<lambda>f. DELIMITER # join_append_data f) gs) @ CR # NL # rest"
  have "Reader_tokens r
          (line_tokens b (join_append_data f @ DELIMITER # join_append_data g @ ?tail)) =
        (if length f \<le> field_size_limit
         then Reader_tokens \<lparr>rd_state = START_FIELD, rd_fields = fl @ [f], rd_field = []\<rparr>
                (line_tokens True (join_append_data g @ ?tail))
         else Inl CsvFieldLimit)"
    using Cons.prems by (intro field_then_delimiter) blast
  moreover have "Reader_tokens \<lparr>rd_state = START_FIELD, rd_fields = fl @ [f], rd_field = []\<rparr>
                (line_tokens True (join_append_data g @ ?tail)) =
         (if \<forall>h \<in> set (g # gs). length h \<le> field_size_limit
          then (case Reader_tokens parse_reset (line_tokens False rest) of
                  Inl e \<Rightarrow> Inl e
                | Inr rows \<Rightarrow> Inr (((fl @ [f]) @ g # gs) # rows))
          else Inl CsvFieldLimit)"
    by (rule Cons.IH) simp
  ultimately show ?case by (simp split: sum.splits)
qed


lemma writerow_read:
  "Reader_tokens parse_reset (line_tokens b (writerow fs @ rest)) =
     (if \<forall>g \<in> set fs. length g \<le> field_size_limit
      then (case Reader_tokens parse_reset (line_tokens False rest) of
              Inl e \<Rightarrow> Inl e
            | Inr rows \<Rightarrow> Inr (fs # rows))
      else Inl CsvFieldLimit)"
proof (cases fs)
  case Nil
  then show ?thesis
    by (simp add: writerow_def Reader_tokens_char Reader_tokens_eol parse_process_char_def
        parse_reset_def split: sum.splits)
next
  case (Cons f gs)
  show ?thesis
  proof (cases "join_append_data f = [] \<and> gs = []")
    case True
    then have "f = []" by (auto simp: join_append_data_def split: if_splits)
    with True Cons show ?thesis
      by (simp add: writerow_def Reader_tokens_char Reader_tokens_eol
          parse_process_char_def start_field_def parse_save_field_def parse_reset_def
          split: sum.splits)
  next
    case False
    then have ne: "join_append_data f @ concat (map (\<lambda>f. DELIMITER # join_append_data f) gs) \<noteq> []"
      by (cases gs) auto
    have "Reader_tokens parse_reset
            (line_tokens b (join_append_data f @
               concat (map (\<lambda>f. DELIMITER # join_append_data f) gs) @ CR # NL # rest)) =
          (if \<forall>g \<in> set (f # gs). length g \<le> field_size_limit
           then (case Reader_tokens parse_reset (line_tokens False rest) of
                   Inl e \<Rightarrow> Inl e
                 | Inr rows \<Rightarrow> Inr (([] @ f # gs) # rows))
           else Inl CsvFieldLimit)"
      using False by (intro row_text) (auto simp: parse_reset_def)
    then show ?thesis using ne Cons False
      by (auto simp: writerow_def join_append_Suc split: sum.splits)
  qed
qed

lemma writerows_read:
  "Reader_tokens parse_reset (line_tokens False (concat (map writerow rows) @ rest)) =
     (if \<forall>row \<in> set rows. \<forall>g \<in> set row. length g \<le> field_size_limit
      then (case Reader_tokens parse_reset (line_tokens False rest) of
              Inl e \<Rightarrow> Inl e
            | Inr rows' \<Rightarrow> Inr (rows @ rows'))
      else Inl CsvFieldLimit)"
  by (induction rows) (auto simp: writerow_read split: sum.splits)

lemma csv_reader_writer:
  "csv_reader (readlines (concat (map writerow rows))) =
     (if \<forall>row \<in> set rows. \<forall>g \<in> set row. length g \<le> field_size_limit
      then Inr rows else Inl CsvFieldLimit)"
  using writerows_read [of rows "[]"] by (simp add: csv_reader_tokens parse_reset_def)





lemma write_rows_eq: "write_rows es tmp = tmp @ concat (map (\<lambda>e. writerow (emp_row e)) es)"
  by (induction es arbitrary: tmp) simp_all

section \<open>The fields the reader returns are within the limit\<close>

lemma ppc_fields:
  assumes "parse_process_char r t = Inr r'"
    and "length (rd_field r) \<le> field_size_limit"
    and "\<forall>f \<in> set (rd_fields r). length f \<le> field_size_limit"
  shows "length (rd_field r') \<le> field_size_limit \<and>
         (\<forall>f \<in> set (rd_fields r'). length f \<le> field_size_limit)"
  using assms
  by (cases "rd_state r"; cases t)
    (auto simp: parse_process_char_def start_field_def parse_save_field_def parse_add_char_def
      split: if_splits sum.splits)

lemma Reader_tokens_fields:
  assumes "Reader_tokens r ts = Inr rows"
    and "length (rd_field r) \<le> field_size_limit"
    and "\<forall>f \<in> set (rd_fields r). length f \<le> field_size_limit"
  shows "\<forall>row \<in> set rows. \<forall>f \<in> set row. length f \<le> field_size_limit"
  using assms
proof (induction r ts arbitrary: rows rule: Reader_tokens.induct)
  case (1 r)
  then show ?case by (auto simp: parse_save_field_def split: if_splits)
next
  case (2 r t ts)
  from "2.prems"(1) obtain r' where r': "parse_process_char r t = Inr r'"
    by (auto simp: Reader_tokens.simps split: sum.splits)
  note inv = ppc_fields [OF r' "2.prems"(2,3)]
  show ?case
  proof (cases "t = None \<and> rd_state r' = START_RECORD")
    case True
    with "2.prems"(1) r' obtain rows' where rows': "Reader_tokens parse_reset ts = Inr rows'"
      and rows: "rows = rd_fields r' # rows'"
      by (auto simp: Reader_tokens.simps split: sum.splits)
    have "\<forall>row \<in> set rows'. \<forall>f \<in> set row. length f \<le> field_size_limit"
      using "2.IH"(1) [OF r' True rows'] by (simp add: parse_reset_def)
    with inv rows show ?thesis by simp
  next
    case False
    with "2.prems"(1) r' have "Reader_tokens r' ts = Inr rows"
      by (auto simp: Reader_tokens.simps split: sum.splits)
    then show ?thesis using "2.IH"(2) [OF r' False] inv by blast
  qed
qed

lemma csv_reader_fields:
  assumes "csv_reader (readlines text) = Inr rows"
  shows "\<forall>row \<in> set rows. \<forall>f \<in> set row. length f \<le> field_size_limit"
proof -
  from assms have "Reader_tokens parse_reset (line_tokens False text) = Inr rows"
    by (simp add: csv_reader_tokens)
  then show ?thesis
    by (rule Reader_tokens_fields) (simp_all add: parse_reset_def)
qed

section \<open>Stripping, padding and the rows of a load\<close>

lemma strip_Nil: "strip [] = []"
  by (simp add: strip_def)

lemma dropWhile_id: "xs = [] \<or> \<not> P (hd xs) \<Longrightarrow> dropWhile P xs = xs"
  by (cases xs) auto

lemma length_strip: "length (strip s) \<le> length s"
proof -
  have "length (dropWhile P xs) \<le> length xs" for P and xs :: ustring
    by (induction xs) auto
  from this [of isspace "rev (dropWhile isspace s)"] this [of isspace s]
  show ?thesis by (simp add: strip_def)
qed

lemma strip_ends:
  assumes "strip s \<noteq> []"
  shows "\<not> isspace (hd (strip s))" and "\<not> isspace (last (strip s))"
proof -
  let ?t = "dropWhile isspace s"
  let ?d = "dropWhile isspace (rev ?t)"
  have u: "strip s = rev ?d" by (simp add: strip_def)
  with assms have d: "?d \<noteq> []" by simp
  then have "\<not> isspace (hd ?d)" by (rule hd_dropWhile)
  then show "\<not> isspace (last (strip s))" using d by (simp add: u last_rev)
  have "rev (strip s @ rev (takeWhile isspace (rev ?t))) = rev ?t"
    unfolding u by simp
  then have t: "?t = strip s @ rev (takeWhile isspace (rev ?t))"
    by (simp only: rev_is_rev_conv)
  with assms have "?t \<noteq> []" by (metis Nil_is_append_conv)
  then have "\<not> isspace (hd ?t)" by (rule hd_dropWhile)
  moreover have "hd ?t = hd (strip s)" using assms by (subst t) simp
  ultimately show "\<not> isspace (hd (strip s))" by simp
qed

lemma strip_idem: "strip (strip s) = strip s"
proof (cases "strip s = []")
  case True
  then show ?thesis by (simp add: strip_Nil)
next
  case False
  have 1: "dropWhile isspace (strip s) = strip s"
    using False strip_ends(1) [OF False] by (intro dropWhile_id) simp
  have "rev (strip s) \<noteq> []" using False by simp
  moreover have "hd (rev (strip s)) = last (strip s)" using False by (simp add: hd_rev)
  ultimately have 2: "dropWhile isspace (rev (strip s)) = rev (strip s)"
    using strip_ends(2) [OF False] by (intro dropWhile_id) simp
  show ?thesis by (subst (1) strip_def) (simp add: 1 2)
qed

lemma pad_parts_eq: "pad_parts parts = parts @ replicate (4 - length parts) []"
proof (induction parts rule: pad_parts.induct)
  case (1 parts)
  show ?case
  proof (cases "length parts < 4")
    case True
    then have "replicate (4 - length parts) ([]::ustring) = [] # replicate (4 - length (parts @ [[]])) []"
      by (cases "4 - length parts") auto
    with True 1 show ?thesis by (subst pad_parts.simps) simp
  next
    case False
    then show ?thesis by (subst pad_parts.simps) simp
  qed
qed

lemma take4: "4 \<le> length xs \<Longrightarrow> take 4 xs = [xs ! 0, xs ! 1, xs ! 2, xs ! 3]"
  by (auto simp: numeral_eq_Suc Suc_le_length_iff)

lemma emp_of_row_eq:
  "emp_of_row row = [(''id'', nth_part row 0), (''name'', nth_part row 1),
                     (''department'', nth_part row 2), (''role'', nth_part row 3)]"
proof -
  let ?ps = "map strip row @ replicate (4 - length row) []"
  have len: "4 \<le> length ?ps" by simp
  have nth: "?ps ! i = nth_part row i" if "i < 4" for i
    using that by (auto simp: nth_part_def nth_append)
  have "take 4 ?ps = [nth_part row 0, nth_part row 1, nth_part row 2, nth_part row 3]"
    using take4 [OF len] nth by simp
  then show ?thesis
    by (simp add: emp_of_row_def pad_parts_eq dict_of_def FIELDNAMES_def)
qed

lemma load_rows_eq:
  "load_rows rows employees = employees @ map emp_of_row (filter (\<lambda>row. row \<noteq> []) rows)"
  by (induction rows arbitrary: employees) auto

lemma length_nth_part:
  "\<forall>f \<in> set row. length f \<le> field_size_limit \<Longrightarrow> length (nth_part row i) \<le> field_size_limit"
  using length_strip [of "row ! i"] by (auto simp: nth_part_def intro: le_trans)

section \<open>Loading\<close>

lemmas reader_eval =
  csv_reader_def readlines_def parse_line_def parse_process_char_def start_field_def
  parse_reset_def parse_add_char_def parse_save_field_def field_size_limit_def ustr_def

lemmas store_eval =
  load_employees_def ensure_data_file_def emp_of_row_def dict_of_def FIELDNAMES_def
  strip_def isspace_uchr truthy_def dict_get_def pad_parts.simps

lemma load_employees_text:
  "load_employees (Some (Text text)) =
     (case csv_reader (readlines text) of
        Inl e \<Rightarrow> (Inl e, Some (Text text))
      | Inr rows \<Rightarrow> (Inr (map emp_of_row (filter (\<lambda>row. row \<noteq> []) rows)), Some (Text text)))"
  by (simp add: load_employees_def ensure_data_file_def load_rows_eq split: sum.splits)

lemma load_employees_ensure: "load_employees fs = load_employees (ensure_data_file fs)"
  by (cases fs) (simp_all add: load_employees_def ensure_data_file_def)

lemma load_employees_undecodable:
  "load_employees (Some Undecodable) = (Inl UnicodeDecodeError, Some Undecodable)"
  by (simp add: load_employees_def ensure_data_file_def)

lemma snd_load_employees: "snd (load_employees fs) = ensure_data_file fs"
  by (simp add: load_employees_def Let_def split: option.splits content.splits sum.splits)

lemma ensure_cases:
  obtains t where "ensure_data_file fs = Some (Text t)"
  | "ensure_data_file fs = Some Undecodable"
proof (cases fs)
  case None
  then show ?thesis using that(1) [of "[]"] by (simp add: ensure_data_file_def)
next
  case (Some c)
  then show ?thesis using that by (cases c) (simp_all add: ensure_data_file_def)
qed

lemma map_of_emp_of_row:
  "i < 4 \<Longrightarrow> map_of (emp_of_row row) (FIELDNAMES ! i) = Some (nth_part row i)"
  by (auto simp: emp_of_row_eq FIELDNAMES_def nth_Cons' numeral_eq_Suc less_Suc_eq)


lemma load_written_row:
  assumes "parts \<noteq> []"
  shows "fst (load_employees (Some (Text (writerow parts)))) =
     (if \<forall>f \<in> set parts. length f \<le> field_size_limit
      then Inr [emp_of_row parts] else Inl CsvFieldLimit)"
  using assms csv_reader_writer [of "[parts]"] by (simp add: load_employees_text)







lemma blank_line_row:
  assumes "l = [NL] \<or> l = [CR] \<or> l = [CR, NL]"
  shows "Reader_iter parse_reset (l # ls) =
           (case Reader_iter parse_reset ls of Inl e \<Rightarrow> Inl e | Inr rows \<Rightarrow> Inr ([] # rows))"
  using assms
  by (auto simp: parse_line_def parse_process_char_def start_field_def parse_reset_def
      split: sum.splits)

lemma csv_reader_blank_line:
  assumes "l = [NL] \<or> l = [CR] \<or> l = [CR, NL]"
  shows "csv_reader (l # ls) =
           (case csv_reader ls of Inl e \<Rightarrow> Inl e | Inr rows \<Rightarrow> Inr ([] # rows))"
  unfolding csv_reader_def by (rule blank_line_row [OF assms])

lemma load_blank_line:
  assumes "l = [NL] \<or> l = [CR] \<or> l = [CR, NL]"
  shows "fst (load_employees (Some (Text (l @ t)))) = fst (load_employees (Some (Text t)))"
proof (cases "l = [CR] \<and> (\<exists>u. t = NL # u)")
  case True
  then obtain u where t: "t = NL # u" and l: "l = [CR]" by blast
  have 1: "readlines (l @ t) = [CR, NL] # readlines u"
    by (simp add: l t readlines_def)
  have 2: "readlines t = [NL] # readlines u"
    by (simp add: t readlines_def)
  show ?thesis
    by (simp add: load_employees_text 1 2 csv_reader_blank_line split: sum.splits)
next
  case False
  then have "readlines (l @ t) = l # readlines t"
    using assms by (cases t) (auto simp: readlines_def)
  then show ?thesis
    by (simp add: load_employees_text csv_reader_blank_line [OF assms] split: sum.splits)
qed

text \<open>
  Claim C9 (implicit). A row with more than four fields gives the record of its first four
  fields, the others being dropped, and every field kept is the row's field with its
  surrounding whitespace stripped. For every state of the backing file whose text the
  reader reads, the loaded sequence is made of these records, one per non-empty row, and
  an error of the reader is the outcome of the load. In particular a file that is one
  written row, of any number of fields within the reader's field size limit, loads as the
  one record of the first four fields, stripped.
\<close>

theorem load_employees_truncates_and_strips:
  "(\<forall>row. (4 < length row \<longrightarrow> emp_of_row row = emp_of_row (take 4 row)) \<and>
         (\<forall>i. i < 4 \<and> i < length row \<longrightarrow>
            map_of (emp_of_row row) (FIELDNAMES ! i) = Some (strip (row ! i)))) \<and>
   (\<forall>t. ensure_data_file fs = Some (Text t) \<longrightarrow>
      fst (load_employees fs) =
        (case csv_reader (readlines t) of
           Inl e \<Rightarrow> Inl e
         | Inr rows \<Rightarrow> Inr (map emp_of_row (filter (\<lambda>row. row \<noteq> []) rows)))) \<and>
   (\<forall>row. row \<noteq> [] \<and> (\<forall>f \<in> set row. length f \<le> field_size_limit) \<longrightarrow>
      fst (load_employees (Some (Text (writerow row)))) = Inr [emp_of_row row])"
proof -
  have 1: "emp_of_row row = emp_of_row (take 4 row)" if "4 < length row" for row
    using that by (auto simp: emp_of_row_eq nth_part_def)
  have 2: "map_of (emp_of_row row) (FIELDNAMES ! i) = Some (strip (row ! i))"
    if "i < 4" "i < length row" for row i
    using that by (simp add: map_of_emp_of_row nth_part_def)
  have 3: "fst (load_employees fs) =
        (case csv_reader (readlines t) of
           Inl e \<Rightarrow> Inl e
         | Inr rows \<Rightarrow> Inr (map emp_of_row (filter (\<lambda>row. row \<noteq> []) rows)))"
    if "ensure_data_file fs = Some (Text t)" for t
    by (subst load_employees_ensure) (simp add: that load_employees_text split: sum.splits)
  have 4: "fst (load_employees (Some (Text (writerow row)))) = Inr [emp_of_row row]"
    if "row \<noteq> []" "\<forall>f \<in> set row. length f \<le> field_size_limit" for row
    using that by (simp add: load_written_row)
  from 1 2 3 4 show ?thesis by blast
qed

theorem load_employees_truncates_and_strips_witness:
  "fst (load_employees (Some (Text (ustr ''1, Ann ,HR ,  Dev,x, y'' @ [CR, NL])))) =
     Inr [[(''id'', ustr ''1''), (''name'', ustr ''Ann''), (''department'', ustr ''HR''),
           (''role'', ustr ''Dev'')]] \<and>
   emp_of_row [ustr ''1'', ustr '' Ann '', ustr ''HR '', ustr ''  Dev'', ustr ''x'', ustr '' y''] =
     emp_of_row [ustr ''1'', ustr '' Ann '', ustr ''HR '', ustr ''  Dev''] \<and>
   map_of (emp_of_row [ustr ''1'', ustr '' Ann '']) ''name'' = Some (ustr ''Ann'')"
  using load_employees_truncates_and_strips
    [of "Some (Text (ustr ''1, Ann ,HR ,  Dev,x, y'' @ [CR, NL]))"]
  by (simp add: reader_eval store_eval)

text \<open>
  Claim C10 (implicit). For every text of the backing file the loaded sequence is exactly
  the records of the reader's non-empty rows, in the order of the file (and an error of
  the reader is the outcome of the load). A blank line (a line that is only a line ending)
  where a row starts gives the empty row, so it adds no record: a text with one more blank
  line in front loads the same sequence.
\<close>

theorem load_employees_skips_blank_lines:
  "fst (load_employees (Some (Text t))) =
     (case csv_reader (readlines t) of
        Inl e \<Rightarrow> Inl e
      | Inr rows \<Rightarrow> Inr (map emp_of_row (filter (\<lambda>row. row \<noteq> []) rows))) \<and>
   (\<forall>l \<in> {[NL], [CR], [CR, NL]}.
      (\<forall>ls. csv_reader (l # ls) =
         (case csv_reader ls of Inl e \<Rightarrow> Inl e | Inr rows \<Rightarrow> Inr ([] # rows))) \<and>
      fst (load_employees (Some (Text (l @ t)))) = fst (load_employees (Some (Text t))))"
  using csv_reader_blank_line load_blank_line
  by (auto simp: load_employees_text split: sum.splits simp del: append.simps)

theorem load_employees_skips_blank_lines_witness:
  "fst (load_employees (Some (Text
      ([NL] @ ustr ''1,a,b,c'' @ [NL, NL, CR, NL, CR] @ ustr ''2,d,e,f'' @ [NL])))) =
     Inr [[(''id'', ustr ''1''), (''name'', ustr ''a''), (''department'', ustr ''b''),
           (''role'', ustr ''c'')],
          [(''id'', ustr ''2''), (''name'', ustr ''d''), (''department'', ustr ''e''),
           (''role'', ustr ''f'')]]"
  using load_employees_skips_blank_lines
    [of "[NL] @ ustr ''1,a,b,c'' @ [NL, NL, CR, NL, CR] @ ustr ''2,d,e,f'' @ [NL]"]
  by (simp add: reader_eval store_eval)

section \<open>Saving, and the three operations in terms of the loaded collection\<close>

lemma atomic_save_text:
  "atomic_save_employees es fs = Some (Text (concat (map writerow (map emp_row es))))"
  by (simp add: atomic_save_employees_def write_rows_eq comp_def)

lemma load_after_save:
  "load_employees (atomic_save_employees es fs) =
     (if \<forall>e \<in> set es. within_limit e then Inr (map as_stored es) else Inl CsvFieldLimit,
      atomic_save_employees es fs)"
proof -
  have 1: "csv_reader (readlines (concat (map writerow (map emp_row es)))) =
      (if \<forall>e \<in> set es. within_limit e then Inr (map emp_row es) else Inl CsvFieldLimit)"
    using csv_reader_writer [of "map emp_row es"] by (simp add: within_limit_def)
  have 2: "filter (\<lambda>row. row \<noteq> []) (map emp_row es) = map emp_row es"
    by (induction es) (simp_all add: emp_row_def)
  have 3: "map emp_of_row (map emp_row es) = map as_stored es"
    by (simp add: as_stored_def)
  show ?thesis
    unfolding atomic_save_text by (simp add: load_employees_text 1 2 3 del: map_map)
qed

lemma as_stored_eq:
  "as_stored e = [(''id'', strip (dict_get e ''id'' [])), (''name'', strip (dict_get e ''name'' [])),
                  (''department'', strip (dict_get e ''department'' [])),
                  (''role'', strip (dict_get e ''role'' []))]"
  by (simp add: as_stored_def emp_of_row_eq emp_row_def nth_part_def)

lemma strip_nth_part: "strip (nth_part row i) = nth_part row i"
  by (simp add: nth_part_def strip_idem strip_Nil)

lemma as_stored_emp_of_row: "as_stored (emp_of_row row) = emp_of_row row"
  by (simp add: as_stored_eq) (simp add: emp_of_row_eq dict_get_def strip_nth_part)

lemma as_stored_idem: "as_stored (as_stored e) = as_stored e"
  unfolding as_stored_def by (rule as_stored_emp_of_row [unfolded as_stored_def])

lemma within_limit_emp_of_row:
  "\<forall>f \<in> set row. length f \<le> field_size_limit \<Longrightarrow> within_limit (emp_of_row row)"
  by (simp add: within_limit_def emp_row_def emp_of_row_eq dict_get_def length_nth_part)

lemma load_Inr:
  "fst (load_employees fs) = Inr es \<Longrightarrow> load_employees fs = (Inr es, ensure_data_file fs)"
  using snd_load_employees [of fs] by (cases "load_employees fs") simp

lemma load_Inl:
  "fst (load_employees fs) = Inl err \<Longrightarrow> load_employees fs = (Inl err, ensure_data_file fs)"
  using snd_load_employees [of fs] by (cases "load_employees fs") simp

lemma loaded_rows:
  assumes "fst (load_employees fs) = Inr es"
  obtains rows where "es = map emp_of_row (filter (\<lambda>row. row \<noteq> []) rows)"
    and "\<forall>row \<in> set rows. \<forall>f \<in> set row. length f \<le> field_size_limit"
proof (rule ensure_cases [of fs])
  fix t assume t: "ensure_data_file fs = Some (Text t)"
  then have l: "load_employees fs = load_employees (Some (Text t))"
    by (subst load_employees_ensure) simp
  show thesis
  proof (cases "csv_reader (readlines t)")
    case (Inl e)
    with assms show ?thesis by (simp add: l load_employees_text)
  next
    case (Inr rows)
    with assms have "es = map emp_of_row (filter (\<lambda>row. row \<noteq> []) rows)"
      by (simp add: l load_employees_text)
    moreover have "\<forall>row \<in> set rows. \<forall>f \<in> set row. length f \<le> field_size_limit"
      using csv_reader_fields [OF Inr] by blast
    ultimately show ?thesis by (rule that)
  qed
next
  assume "ensure_data_file fs = Some Undecodable"
  then have "load_employees fs = load_employees (Some Undecodable)"
    by (subst load_employees_ensure) simp
  with assms show thesis by (simp add: load_employees_undecodable)
qed

lemma loaded_stored:
  assumes "fst (load_employees fs) = Inr es" and "e \<in> set es"
  shows "as_stored e = e" and "within_limit e"
proof -
  from assms(1) obtain rows where es: "es = map emp_of_row (filter (\<lambda>row. row \<noteq> []) rows)"
    and lim: "\<forall>row \<in> set rows. \<forall>f \<in> set row. length f \<le> field_size_limit"
    by (rule loaded_rows)
  from assms(2) es obtain row where row: "row \<in> set rows" "e = emp_of_row row" by auto
  show "as_stored e = e" by (simp add: row as_stored_emp_of_row)
  from lim row show "within_limit e" by (simp add: within_limit_emp_of_row)
qed

lemma map_as_stored_loaded:
  "fst (load_employees fs) = Inr es \<Longrightarrow> map as_stored es = es"
  by (simp add: map_idI loaded_stored(1))

lemma load_ensure_fst: "fst (load_employees (ensure_data_file fs)) = fst (load_employees fs)"
  by (simp add: load_employees_ensure [symmetric])

lemma find_truthy:
  "truthy (find_employee_by_id k es) \<longleftrightarrow> (\<exists>e \<in> set es. map_of e ''id'' = Some k)"
  by (induction es) (auto simp: truthy_def)

lemma id_as_stored: "map_of (as_stored e) ''id'' = Some (strip (dict_get e ''id'' []))"
  by (simp add: as_stored_eq)

lemma add_employee_eq:
  assumes "fst (load_employees fs) = Inr es"
  shows "add_employee emp fs =
     (if \<exists>e \<in> set es. map_of e ''id'' = Some (strip (dict_get emp ''id'' []))
      then (Inr (False, ''ID already exists''), ensure_data_file fs)
      else (Inr (True, ''Added''), atomic_save_employees (es @ [emp]) (ensure_data_file fs)))"
  by (simp add: add_employee_def load_Inr [OF assms] find_truthy)

lemma add_employee_error:
  assumes "fst (load_employees fs) = Inl err"
  shows "add_employee emp fs = (Inl err, ensure_data_file fs)"
  by (simp add: add_employee_def load_Inl [OF assms])

lemma delete_employee_eq:
  assumes "fst (load_employees fs) = Inr es"
  shows "delete_employee emp_id fs =
     (if \<forall>e \<in> set es. map_of e ''id'' \<noteq> Some emp_id
      then (Inr (False, ''ID not found''), ensure_data_file fs)
      else (Inr (True, ''Deleted''),
            atomic_save_employees (filter (\<lambda>e. map_of e ''id'' \<noteq> Some emp_id) es)
              (ensure_data_file fs)))"
proof -
  have "length (filter P xs) = length xs \<longleftrightarrow> (\<forall>x \<in> set xs. P x)" for P and xs :: "employee list"
    by (metis filter_id_conv length_filter_less less_irrefl)
  then show ?thesis
    by (simp add: delete_employee_def load_Inr [OF assms] Let_def)
qed

lemma delete_employee_error:
  assumes "fst (load_employees fs) = Inl err"
  shows "delete_employee emp_id fs = (Inl err, ensure_data_file fs)"
  by (simp add: delete_employee_def load_Inl [OF assms])

lemma update_loop_not_found:
  "(\<forall>j. i \<le> j \<and> j < length es \<longrightarrow> map_of (es ! j) ''id'' \<noteq> Some emp_id) \<Longrightarrow>
   update_loop emp_id upd es i = Inr (es, False)"
proof (induction emp_id upd es i rule: update_loop.induct)
  case (1 emp_id upd es i)
  show ?case
  proof (cases "i < length es")
    case True
    with 1 show ?thesis by (subst update_loop.simps) auto
  next
    case False
    then show ?thesis by (subst update_loop.simps) simp
  qed
qed

lemma update_loop_found:
  "i \<le> j \<Longrightarrow> j < length es \<Longrightarrow> map_of (es ! j) ''id'' = Some emp_id \<Longrightarrow>
   (\<forall>k. i \<le> k \<and> k < j \<longrightarrow> map_of (es ! k) ''id'' \<noteq> Some emp_id) \<Longrightarrow>
   update_loop emp_id upd es i =
     (if strip (dict_get upd ''id'' emp_id) \<noteq> emp_id \<and>
         truthy (find_employee_by_id (strip (dict_get upd ''id'' emp_id)) es)
      then Inl (False, ''Target ID already exists'')
      else Inr (es[j := upd], True))"
proof (induction emp_id upd es i rule: update_loop.induct)
  case (1 emp_id upd es i)
  show ?case
  proof (cases "i = j")
    case True
    with 1 show ?thesis by (subst update_loop.simps) (simp add: Let_def)
  next
    case False
    with 1 have "i < j" "i < length es" "map_of (es ! i) ''id'' \<noteq> Some emp_id" by auto
    with 1 show ?thesis by (subst update_loop.simps) auto
  qed
qed

lemma first_match:
  assumes "\<exists>e \<in> set es. P e"
  shows "\<exists>j < length es. P (es ! j) \<and> (\<forall>k < j. \<not> P (es ! k))"
proof -
  from assms obtain n where "n < length es \<and> P (es ! n)"
    by (auto simp: in_set_conv_nth)
  then obtain j where "j < length es \<and> P (es ! j)" and "\<forall>k < j. \<not> (k < length es \<and> P (es ! k))"
    using exists_least_iff [of "\<lambda>n. n < length es \<and> P (es ! n)"] by blast
  then show ?thesis by (intro exI [of _ j]) auto
qed

lemma update_employee_not_found:
  assumes "fst (load_employees fs) = Inr es"
    and "\<forall>e \<in> set es. map_of e ''id'' \<noteq> Some emp_id"
  shows "update_employee emp_id upd fs = (Inr (False, ''ID not found''), ensure_data_file fs)"
proof -
  have "update_loop emp_id upd es 0 = Inr (es, False)"
    using assms(2) by (intro update_loop_not_found) auto
  then show ?thesis
    by (simp add: update_employee_def load_Inr [OF assms(1)])
qed

lemma update_employee_found:
  assumes "fst (load_employees fs) = Inr es"
    and "j < length es" "map_of (es ! j) ''id'' = Some emp_id"
    and "\<forall>k < j. map_of (es ! k) ''id'' \<noteq> Some emp_id"
  shows "update_employee emp_id upd fs =
     (if strip (dict_get upd ''id'' emp_id) \<noteq> emp_id \<and>
         (\<exists>e \<in> set es. map_of e ''id'' = Some (strip (dict_get upd ''id'' emp_id)))
      then (Inr (False, ''Target ID already exists''), ensure_data_file fs)
      else (Inr (True, ''Updated''),
            atomic_save_employees (es[j := upd]) (ensure_data_file fs)))"
proof -
  have "update_loop emp_id upd es 0 =
     (if strip (dict_get upd ''id'' emp_id) \<noteq> emp_id \<and>
         truthy (find_employee_by_id (strip (dict_get upd ''id'' emp_id)) es)
      then Inl (False, ''Target ID already exists'')
      else Inr (es[j := upd], True))"
    using assms(2-4) by (intro update_loop_found) auto
  then show ?thesis
    by (simp add: update_employee_def load_Inr [OF assms(1)] find_truthy)
qed

lemma update_employee_error:
  assumes "fst (load_employees fs) = Inl err"
  shows "update_employee emp_id upd fs = (Inl err, ensure_data_file fs)"
  by (simp add: update_employee_def load_Inl [OF assms])

section \<open>The operations\<close>

lemmas writer_eval =
  atomic_save_employees_def emp_row_def writerow_def join_append_data_def needs_quote_def

lemma as_stored_record:
  assumes "map fst emp = FIELDNAMES" and "\<forall>v \<in> set (map snd emp). strip v = v"
  shows "as_stored emp = emp"
proof -
  from assms(1) obtain a b c d where
    "emp = [(''id'', a), (''name'', b), (''department'', c), (''role'', d)]"
    by (auto simp: FIELDNAMES_def map_eq_Cons_conv)
  with assms(2) show ?thesis by (simp add: as_stored_eq dict_get_def)
qed

lemma load_after_append:
  assumes "fst (load_employees fs) = Inr es"
  shows "fst (load_employees (atomic_save_employees (es @ [emp]) fs1)) =
     (if within_limit emp then Inr (es @ [as_stored emp]) else Inl CsvFieldLimit)"
  using loaded_stored(2) [OF assms] map_as_stored_loaded [OF assms]
  by (simp add: load_after_save)

lemma load_after_update:
  assumes "fst (load_employees fs) = Inr es" and "i < length es"
  shows "fst (load_employees (atomic_save_employees (es[i := upd]) fs1)) =
     (if within_limit upd then Inr (es[i := as_stored upd]) else Inl CsvFieldLimit)"
proof -
  have "(\<forall>e \<in> set (es[i := upd]). within_limit e) \<longleftrightarrow> within_limit upd"
    using loaded_stored(2) [OF assms(1)] assms(2) set_update_subset_insert [of es i upd]
      set_update_memI [OF assms(2), of upd]
    by auto
  moreover have "map as_stored (es[i := upd]) = es[i := as_stored upd]"
    by (simp add: map_update map_as_stored_loaded [OF assms(1)])
  ultimately show ?thesis by (simp add: load_after_save)
qed

lemma load_after_filter:
  assumes "fst (load_employees fs) = Inr es"
  shows "fst (load_employees (atomic_save_employees (filter P es) fs1)) = Inr (filter P es)"
proof -
  have "map as_stored (filter P es) = filter P es"
    by (rule map_idI) (simp add: loaded_stored(1) [OF assms])
  moreover have "\<forall>e \<in> set (filter P es). within_limit e"
    by (simp add: loaded_stored(2) [OF assms])
  ultimately show ?thesis by (simp add: load_after_save)
qed

text \<open>
  Claim C3 as stated fails: the record is appended and saved whatever the length of its
  fields, but the reader refuses a field of more than 131072 characters. On the empty
  file, adding a record whose name has 131073 characters returns \<open>(True, "Added")\<close> and
  writes the row; the load after that does not contain the record, it raises the reader's
  error, and so does a second add of the same record, instead of failing with the
  duplicate-id message.
\<close>

theorem add_employee_long_field:
  "add_employee [(''id'', ustr ''2''), (''name'', replicate 131073 (uchr CHR ''a''))] (Some (Text [])) =
     (Inr (True, ''Added''),
      Some (Text (ustr ''2,'' @ replicate 131073 (uchr CHR ''a'') @ ustr '',,'' @ [CR, NL]))) \<and>
   fst (load_employees
      (Some (Text (ustr ''2,'' @ replicate 131073 (uchr CHR ''a'') @ ustr '',,'' @ [CR, NL])))) =
     Inl CsvFieldLimit \<and>
   fst (add_employee [(''id'', ustr ''2''), (''name'', replicate 131073 (uchr CHR ''a''))]
      (Some (Text (ustr ''2,'' @ replicate 131073 (uchr CHR ''a'') @ ustr '',,'' @ [CR, NL])))) =
     Inl CsvFieldLimit"
proof -
  let ?emp = "[(''id'', ustr ''2''), (''name'', replicate 131073 (uchr CHR ''a''))]"
  let ?fs' = "Some (Text (ustr ''2,'' @ replicate 131073 (uchr CHR ''a'') @ ustr '',,'' @ [CR, NL]))"
  have l0: "fst (load_employees (Some (Text []))) = Inr []"
    by (simp add: reader_eval store_eval)
  have s: "atomic_save_employees [?emp] (Some (Text [])) = ?fs'"
    by (simp add: writer_eval dict_get_def ustr_def)
  have "\<not> within_limit ?emp"
    by (simp add: within_limit_def emp_row_def dict_get_def field_size_limit_def)
  then have l1: "fst (load_employees ?fs') = Inl CsvFieldLimit"
    using load_after_save [of "[?emp]" "Some (Text [])"] by (simp add: s)
  have "add_employee ?emp (Some (Text [])) = (Inr (True, ''Added''), ?fs')"
    using add_employee_eq [OF l0, of ?emp] s by (simp add: ensure_data_file_def)
  moreover have "fst (add_employee ?emp ?fs') = Inl CsvFieldLimit"
    by (simp add: add_employee_error [OF l1])
  ultimately show ?thesis using l1 by simp
qed

text \<open>
  Claim C3 (\<open>add_employee\<close>), as amended. For every state of the backing file that loads,
  with loaded collection \<open>es\<close>, and every record: if a record of \<open>es\<close> has the record's id
  (ids are compared stripped, as the file stores them) the call returns
  \<open>(False, "ID already exists")\<close> without saving; otherwise it returns \<open>(True, "Added")\<close>
  and saves \<open>es\<close> with the record appended. When each of the record's four fields, as
  written, has at most 131072 characters, a load after that returns \<open>es\<close> followed by the
  record as stored (its four fields, stripped), which occurs exactly once in it, as does
  its id, and a second add of the same record returns \<open>(False, "ID already exists")\<close>; when
  a field is longer, the load after that and the second add raise the reader's field size
  error. A record that has exactly the four fields, already stripped, is stored as it is.
\<close>

theorem add_employee_spec:
  assumes "fst (load_employees fs) = Inr es"
  shows "((\<exists>e \<in> set es. map_of e ''id'' = Some (strip (dict_get emp ''id'' []))) \<longrightarrow>
            add_employee emp fs = (Inr (False, ''ID already exists''), ensure_data_file fs)) \<and>
         (\<not> (\<exists>e \<in> set es. map_of e ''id'' = Some (strip (dict_get emp ''id'' []))) \<longrightarrow>
            (\<exists>fs'. add_employee emp fs = (Inr (True, ''Added''), fs') \<and>
               fs' = atomic_save_employees (es @ [emp]) (ensure_data_file fs) \<and>
               fst (load_employees fs') =
                 (if within_limit emp then Inr (es @ [as_stored emp]) else Inl CsvFieldLimit) \<and>
               count_list (es @ [as_stored emp]) (as_stored emp) = 1 \<and>
               length (filter (\<lambda>e. map_of e ''id'' = Some (strip (dict_get emp ''id'' [])))
                         (es @ [as_stored emp])) = 1 \<and>
               fst (add_employee emp fs') =
                 (if within_limit emp then Inr (False, ''ID already exists'')
                  else Inl CsvFieldLimit))) \<and>
         (map fst emp = FIELDNAMES \<and> (\<forall>v \<in> set (map snd emp). strip v = v) \<longrightarrow>
            as_stored emp = emp)"
proof -
  let ?key = "strip (dict_get emp ''id'' [])"
  let ?fs' = "atomic_save_employees (es @ [emp]) (ensure_data_file fs)"
  have l': "fst (load_employees ?fs') =
      (if within_limit emp then Inr (es @ [as_stored emp]) else Inl CsvFieldLimit)"
    by (rule load_after_append [OF assms])
  have again: "fst (add_employee emp ?fs') =
      (if within_limit emp then Inr (False, ''ID already exists'') else Inl CsvFieldLimit)"
  proof (cases "within_limit emp")
    case True
    with l' have "fst (load_employees ?fs') = Inr (es @ [as_stored emp])" by simp
    from add_employee_eq [OF this, of emp] True show ?thesis by (simp add: id_as_stored)
  next
    case False
    with l' have "fst (load_employees ?fs') = Inl CsvFieldLimit" by simp
    from add_employee_error [OF this, of emp] False show ?thesis by simp
  qed
  {
    assume nf: "\<not> (\<exists>e \<in> set es. map_of e ''id'' = Some ?key)"
    then have f: "filter (\<lambda>e. map_of e ''id'' = Some ?key) es = []"
      by (auto simp: filter_empty_conv)
    from nf have "as_stored emp \<notin> set es"
      using id_as_stored [of emp] by auto
    then have "count_list es (as_stored emp) = 0" by simp
    then have "count_list (es @ [as_stored emp]) (as_stored emp) = 1" by simp
    moreover have "length (filter (\<lambda>e. map_of e ''id'' = Some ?key) (es @ [as_stored emp])) = 1"
      by (simp add: f id_as_stored)
    ultimately have "count_list (es @ [as_stored emp]) (as_stored emp) = 1 \<and>
       length (filter (\<lambda>e. map_of e ''id'' = Some ?key) (es @ [as_stored emp])) = 1" by simp
  }
  then show ?thesis
    using l' again as_stored_record [of emp]
    by (simp add: add_employee_eq [OF assms])
qed

theorem add_employee_spec_witness:
  "add_employee [(''id'', ustr ''2''), (''name'', ustr ''Bob''), (''department'', ustr ''IT''),
                 (''role'', ustr ''Ops'')]
     (Some (Text (ustr ''1,Ann,HR,Dev'' @ [CR, NL]))) =
     (Inr (True, ''Added''),
      Some (Text (ustr ''1,Ann,HR,Dev'' @ [CR, NL] @ ustr ''2,Bob,IT,Ops'' @ [CR, NL]))) \<and>
   fst (load_employees (Some (Text (ustr ''1,Ann,HR,Dev'' @ [CR, NL] @ ustr ''2,Bob,IT,Ops'' @ [CR, NL])))) =
     Inr [[(''id'', ustr ''1''), (''name'', ustr ''Ann''), (''department'', ustr ''HR''),
           (''role'', ustr ''Dev'')],
          [(''id'', ustr ''2''), (''name'', ustr ''Bob''), (''department'', ustr ''IT''),
           (''role'', ustr ''Ops'')]] \<and>
   fst (add_employee [(''id'', ustr ''2''), (''name'', ustr ''Bob''), (''department'', ustr ''IT''),
                      (''role'', ustr ''Ops'')]
     (Some (Text (ustr ''1,Ann,HR,Dev'' @ [CR, NL] @ ustr ''2,Bob,IT,Ops'' @ [CR, NL])))) =
     Inr (False, ''ID already exists'')"
  using add_employee_spec
    [of "Some (Text (ustr ''1,Ann,HR,Dev'' @ [CR, NL]))"
        "[[(''id'', ustr ''1''), (''name'', ustr ''Ann''), (''department'', ustr ''HR''),
           (''role'', ustr ''Dev'')]]"
        "[(''id'', ustr ''2''), (''name'', ustr ''Bob''), (''department'', ustr ''IT''),
          (''role'', ustr ''Ops'')]"]
  by (simp add: reader_eval store_eval writer_eval as_stored_def add_employee_def within_limit_def)



lemma filter_single:
  assumes "distinct (map f xs)" and "x \<in> set xs"
  shows "\<exists>pre post. xs = pre @ x # post \<and> filter (\<lambda>y. f y \<noteq> f x) xs = pre @ post"
proof -
  from assms(2) obtain pre post where xs: "xs = pre @ x # post"
    by (auto simp: in_set_conv_decomp)
  with assms(1) have "\<forall>y \<in> set pre. f y \<noteq> f x" "\<forall>y \<in> set post. f y \<noteq> f x"
    by (auto simp: image_iff)
  then have "filter (\<lambda>y. f y \<noteq> f x) xs = pre @ post"
    by (simp add: xs)
  with xs show ?thesis by blast
qed

text \<open>
  Claim C4 (\<open>delete_employee\<close>). For every state of the backing file that loads, with
  loaded collection \<open>es\<close>, and every id: the call returns \<open>(False, "ID not found")\<close> exactly
  when no record of \<open>es\<close> has the id, and then saves nothing. When a record has the id it
  returns \<open>(True, "Deleted")\<close> and saves the records of \<open>es\<close> with another id, in their
  order; a load after that returns them. When the ids of \<open>es\<close> are distinct, that is
  \<open>es\<close> with exactly the one matching record taken out.
\<close>

theorem delete_employee_spec:
  assumes "fst (load_employees fs) = Inr es"
  shows "(fst (delete_employee emp_id fs) = Inr (False, ''ID not found'') \<longleftrightarrow>
            (\<forall>e \<in> set es. map_of e ''id'' \<noteq> Some emp_id)) \<and>
         ((\<forall>e \<in> set es. map_of e ''id'' \<noteq> Some emp_id) \<longrightarrow>
            snd (delete_employee emp_id fs) = ensure_data_file fs) \<and>
         ((\<exists>e \<in> set es. map_of e ''id'' = Some emp_id) \<longrightarrow>
            (\<exists>fs'. delete_employee emp_id fs = (Inr (True, ''Deleted''), fs') \<and>
               fs' = atomic_save_employees (filter (\<lambda>e. map_of e ''id'' \<noteq> Some emp_id) es)
                       (ensure_data_file fs) \<and>
               fst (load_employees fs') = Inr (filter (\<lambda>e. map_of e ''id'' \<noteq> Some emp_id) es) \<and>
               (distinct (map (\<lambda>e. map_of e ''id'') es) \<longrightarrow>
                  (\<exists>pre e post. es = pre @ e # post \<and> map_of e ''id'' = Some emp_id \<and>
                     fst (load_employees fs') = Inr (pre @ post)))))"
proof -
  let ?keep = "filter (\<lambda>e. map_of e ''id'' \<noteq> Some emp_id) es"
  let ?fs' = "atomic_save_employees ?keep (ensure_data_file fs)"
  have l: "fst (load_employees ?fs') = Inr ?keep"
    by (rule load_after_filter [OF assms])
  have single: "\<exists>pre e post. es = pre @ e # post \<and> map_of e ''id'' = Some emp_id \<and>
      fst (load_employees ?fs') = Inr (pre @ post)"
    if d: "distinct (map (\<lambda>e. map_of e ''id'') es)" and ex: "\<exists>e \<in> set es. map_of e ''id'' = Some emp_id"
  proof -
    from ex obtain e where e: "e \<in> set es" "map_of e ''id'' = Some emp_id" by blast
    from filter_single [OF d e(1)] obtain pre post where
      "es = pre @ e # post" "filter (\<lambda>y. map_of y ''id'' \<noteq> map_of e ''id'') es = pre @ post"
      by blast
    with e(2) l show ?thesis by auto
  qed
  show ?thesis
    using l single by (auto simp: delete_employee_eq [OF assms])
qed

theorem delete_employee_spec_witness:
  "delete_employee (ustr ''2'')
     (Some (Text (ustr ''1,Ann,HR,Dev'' @ [CR, NL] @ ustr ''2,Bob,IT,Ops'' @ [CR, NL] @
                  ustr ''3,Cy,HR,Dev'' @ [CR, NL]))) =
     (Inr (True, ''Deleted''),
      Some (Text (ustr ''1,Ann,HR,Dev'' @ [CR, NL] @ ustr ''3,Cy,HR,Dev'' @ [CR, NL]))) \<and>
   fst (load_employees (Some (Text (ustr ''1,Ann,HR,Dev'' @ [CR, NL] @ ustr ''3,Cy,HR,Dev'' @ [CR, NL])))) =
     Inr [[(''id'', ustr ''1''), (''name'', ustr ''Ann''), (''department'', ustr ''HR''),
           (''role'', ustr ''Dev'')],
          [(''id'', ustr ''3''), (''name'', ustr ''Cy''), (''department'', ustr ''HR''),
           (''role'', ustr ''Dev'')]] \<and>
   delete_employee (ustr ''4'')
     (Some (Text (ustr ''1,Ann,HR,Dev'' @ [CR, NL] @ ustr ''2,Bob,IT,Ops'' @ [CR, NL] @
                  ustr ''3,Cy,HR,Dev'' @ [CR, NL]))) =
     (Inr (False, ''ID not found''),
      Some (Text (ustr ''1,Ann,HR,Dev'' @ [CR, NL] @ ustr ''2,Bob,IT,Ops'' @ [CR, NL] @
                  ustr ''3,Cy,HR,Dev'' @ [CR, NL])))"
  using delete_employee_spec
    [of "Some (Text (ustr ''1,Ann,HR,Dev'' @ [CR, NL] @ ustr ''2,Bob,IT,Ops'' @ [CR, NL] @
                     ustr ''3,Cy,HR,Dev'' @ [CR, NL]))"
        "[[(''id'', ustr ''1''), (''name'', ustr ''Ann''), (''department'', ustr ''HR''),
           (''role'', ustr ''Dev'')],
          [(''id'', ustr ''2''), (''name'', ustr ''Bob''), (''department'', ustr ''IT''),
           (''role'', ustr ''Ops'')],
          [(''id'', ustr ''3''), (''name'', ustr ''Cy''), (''department'', ustr ''HR''),
           (''role'', ustr ''Dev'')]]"
        "ustr ''2''"]
  by (simp add: reader_eval store_eval writer_eval delete_employee_def)

lemma op_cases:
  obtains es where "fst (load_employees fs) = Inr es"
  | err where "fst (load_employees fs) = Inl err"
  by (cases "fst (load_employees fs)") auto

text \<open>
  Claim C6 (failure leaves the store as it was). For every state of the backing file:
  when \<open>add_employee\<close>, \<open>update_employee\<close> or \<open>delete_employee\<close> returns a pair with the
  flag false, the message is the duplicate-id or the not-found one and the file is what
  \<open>ensure_data_file\<close> makes of the file before the call: the same content when the file
  existed, the empty file when it was absent; in both cases a load gives the same outcome
  as before. Whenever the file loads, each operation returns such a pair of a flag and a
  message; it raises only the error of its load, and then too the file is what
  \<open>ensure_data_file\<close> makes of it.
\<close>

theorem failure_leaves_store:
  "(\<forall>msg. fst (add_employee emp fs) = Inr (False, msg) \<longrightarrow>
      msg = ''ID already exists'' \<and> snd (add_employee emp fs) = ensure_data_file fs) \<and>
   (\<forall>msg. fst (update_employee emp_id upd fs) = Inr (False, msg) \<longrightarrow>
      (msg = ''ID not found'' \<or> msg = ''Target ID already exists'') \<and>
      snd (update_employee emp_id upd fs) = ensure_data_file fs) \<and>
   (\<forall>msg. fst (delete_employee emp_id fs) = Inr (False, msg) \<longrightarrow>
      msg = ''ID not found'' \<and> snd (delete_employee emp_id fs) = ensure_data_file fs) \<and>
   fst (load_employees (ensure_data_file fs)) = fst (load_employees fs) \<and>
   (\<forall>c. fs = Some c \<longrightarrow> ensure_data_file fs = fs) \<and>
   (\<forall>es. fst (load_employees fs) = Inr es \<longrightarrow>
      (\<exists>ok msg. fst (add_employee emp fs) = Inr (ok, msg)) \<and>
      (\<exists>ok msg. fst (update_employee emp_id upd fs) = Inr (ok, msg)) \<and>
      (\<exists>ok msg. fst (delete_employee emp_id fs) = Inr (ok, msg))) \<and>
   (\<forall>err. fst (load_employees fs) = Inl err \<longrightarrow>
      add_employee emp fs = (Inl err, ensure_data_file fs) \<and>
      update_employee emp_id upd fs = (Inl err, ensure_data_file fs) \<and>
      delete_employee emp_id fs = (Inl err, ensure_data_file fs))"
proof -
  have a: "(\<exists>ok msg. fst (add_employee emp fs) = Inr (ok, msg) \<and>
      (\<not> ok \<longrightarrow> msg = ''ID already exists'' \<and> snd (add_employee emp fs) = ensure_data_file fs))"
    if "fst (load_employees fs) = Inr es" for es
    by (auto simp: add_employee_eq [OF that])
  have d: "\<exists>ok msg. fst (delete_employee emp_id fs) = Inr (ok, msg) \<and>
      (\<not> ok \<longrightarrow> msg = ''ID not found'' \<and> snd (delete_employee emp_id fs) = ensure_data_file fs)"
    if "fst (load_employees fs) = Inr es" for es
    by (auto simp: delete_employee_eq [OF that])
  have u: "\<exists>ok msg. fst (update_employee emp_id upd fs) = Inr (ok, msg) \<and>
      (\<not> ok \<longrightarrow> (msg = ''ID not found'' \<or> msg = ''Target ID already exists'') \<and>
         snd (update_employee emp_id upd fs) = ensure_data_file fs)"
    if l: "fst (load_employees fs) = Inr es" for es
  proof (cases "\<forall>e \<in> set es. map_of e ''id'' \<noteq> Some emp_id")
    case True
    then show ?thesis by (auto simp: update_employee_not_found [OF l])
  next
    case False
    then obtain j where "j < length es" "map_of (es ! j) ''id'' = Some emp_id"
      "\<forall>k < j. map_of (es ! k) ''id'' \<noteq> Some emp_id"
      using first_match [of es "\<lambda>e. map_of e ''id'' = Some emp_id"] by blast
    then show ?thesis by (auto simp: update_employee_found [OF l, of j])
  qed
  have e: "add_employee emp fs = (Inl err, ensure_data_file fs) \<and>
      update_employee emp_id upd fs = (Inl err, ensure_data_file fs) \<and>
      delete_employee emp_id fs = (Inl err, ensure_data_file fs)"
    if "fst (load_employees fs) = Inl err" for err
    using that by (simp add: add_employee_error update_employee_error delete_employee_error)
  have c: "\<forall>c. fs = Some c \<longrightarrow> ensure_data_file fs = fs"
    by (simp add: ensure_data_file_def)
  have fa: "msg = ''ID already exists'' \<and> snd (add_employee emp fs) = ensure_data_file fs"
    if "fst (add_employee emp fs) = Inr (False, msg)" for msg
  proof (rule op_cases [of fs])
    fix es assume "fst (load_employees fs) = Inr es"
    from a [OF this] that show ?thesis by auto
  next
    fix err assume "fst (load_employees fs) = Inl err"
    from e [OF this] that show ?thesis by simp
  qed
  have fu: "(msg = ''ID not found'' \<or> msg = ''Target ID already exists'') \<and>
      snd (update_employee emp_id upd fs) = ensure_data_file fs"
    if "fst (update_employee emp_id upd fs) = Inr (False, msg)" for msg
  proof (rule op_cases [of fs])
    fix es assume "fst (load_employees fs) = Inr es"
    from u [OF this] that show ?thesis by auto
  next
    fix err assume "fst (load_employees fs) = Inl err"
    from e [OF this] that show ?thesis by simp
  qed
  have fd: "msg = ''ID not found'' \<and> snd (delete_employee emp_id fs) = ensure_data_file fs"
    if "fst (delete_employee emp_id fs) = Inr (False, msg)" for msg
  proof (rule op_cases [of fs])
    fix es assume "fst (load_employees fs) = Inr es"
    from d [OF this] that show ?thesis by auto
  next
    fix err assume "fst (load_employees fs) = Inl err"
    from e [OF this] that show ?thesis by simp
  qed
  have s: "(\<exists>ok msg. fst (add_employee emp fs) = Inr (ok, msg)) \<and>
      (\<exists>ok msg. fst (update_employee emp_id upd fs) = Inr (ok, msg)) \<and>
      (\<exists>ok msg. fst (delete_employee emp_id fs) = Inr (ok, msg))"
    if "fst (load_employees fs) = Inr es" for es
    using a [OF that] u [OF that] d [OF that] by blast
  from fa fu fd load_ensure_fst [of fs] c s e show ?thesis by blast
qed

theorem failure_leaves_store_witness:
  "add_employee [(''id'', ustr '' 1 ''), (''name'', ustr ''Al'')]
     (Some (Text (ustr ''1,Ann,HR,Dev'' @ [CR, NL]))) =
     (Inr (False, ''ID already exists''), Some (Text (ustr ''1,Ann,HR,Dev'' @ [CR, NL]))) \<and>
   update_employee (ustr ''9'') [(''id'', ustr ''9'')] (Some (Text (ustr ''1,Ann,HR,Dev'' @ [CR, NL]))) =
     (Inr (False, ''ID not found''), Some (Text (ustr ''1,Ann,HR,Dev'' @ [CR, NL]))) \<and>
   delete_employee (ustr ''9'') None = (Inr (False, ''ID not found''), Some (Text [])) \<and>
   fst (load_employees (Some (Text []))) = fst (load_employees None)"
  using failure_leaves_store
    [of "[(''id'', ustr '' 1 ''), (''name'', ustr ''Al'')]" "Some (Text (ustr ''1,Ann,HR,Dev'' @ [CR, NL]))"
        "ustr ''9''" "[(''id'', ustr ''9'')]"]
  by (simp add: reader_eval store_eval writer_eval add_employee_def update_employee_def
      delete_employee_def update_loop.simps)

text \<open>
  Claim C5 (round trip), as amended. Saving what a load returned does not in general leave
  the text of the file as it was: the writer ends rows with \<open>\r\n\<close>, and load strips
  fields, pads or cuts rows to four fields and drops blank lines (the theorem
  \<open>save_load_rewrites_text\<close> below shows a file with \<open>\n\<close> line ends being rewritten). What
  holds for every state of the file that loads: a load after saving the loaded collection
  returns that same collection; saving what that second load returns writes the same text
  again; and when the file was itself written by \<open>atomic_save_employees\<close> from records in
  stored form, saving the loaded collection writes the very text the file had.
\<close>

theorem save_load_roundtrip:
  assumes "load_employees fs = (Inr es, fs1)"
  shows "load_employees (atomic_save_employees es fs1) = (Inr es, atomic_save_employees es fs1) \<and>
         (\<forall>es' fs2. load_employees (atomic_save_employees es fs1) = (Inr es', fs2) \<longrightarrow>
            atomic_save_employees es' fs2 = atomic_save_employees es fs1) \<and>
         (\<forall>es0 fs0. fs = atomic_save_employees es0 fs0 \<and> (\<forall>e \<in> set es0. as_stored e = e) \<longrightarrow>
            atomic_save_employees es fs1 = fs)"
proof -
  from assms have l: "fst (load_employees fs) = Inr es" by simp
  have stored: "map as_stored es = es" by (rule map_as_stored_loaded [OF l])
  have lim: "\<forall>e \<in> set es. within_limit e" using loaded_stored(2) [OF l] by blast
  have 1: "load_employees (atomic_save_employees es fs1) = (Inr es, atomic_save_employees es fs1)"
    using lim by (simp add: load_after_save stored)
  have 3: "atomic_save_employees es fs1 = fs"
    if "fs = atomic_save_employees es0 fs0" "\<forall>e \<in> set es0. as_stored e = e" for es0 fs0
  proof -
    have "map as_stored es0 = es0" using that(2) by (simp add: map_idI)
    with l have "es = es0"
      unfolding that(1) by (simp add: load_after_save split: if_splits)
    then show ?thesis by (simp add: that(1) atomic_save_text)
  qed
  from 1 3 show ?thesis by (auto simp: atomic_save_text)
qed

theorem save_load_roundtrip_witness:
  "load_employees (atomic_save_employees
      [[(''id'', ustr ''1''), (''name'', ustr ''Ann''), (''department'', ustr ''HR''),
        (''role'', ustr ''Dev'')]]
      (Some (Text (ustr ''1, Ann ,HR,Dev'' @ [NL])))) =
     (Inr [[(''id'', ustr ''1''), (''name'', ustr ''Ann''), (''department'', ustr ''HR''),
            (''role'', ustr ''Dev'')]],
      Some (Text (ustr ''1,Ann,HR,Dev'' @ [CR, NL])))"
  using save_load_roundtrip
    [of "Some (Text (ustr ''1, Ann ,HR,Dev'' @ [NL]))"
        "[[(''id'', ustr ''1''), (''name'', ustr ''Ann''), (''department'', ustr ''HR''),
           (''role'', ustr ''Dev'')]]"
        "Some (Text (ustr ''1, Ann ,HR,Dev'' @ [NL]))"]
  by (simp add: reader_eval store_eval writer_eval)

text \<open>
  Claim C5 as stated fails: a file whose one row ends with \<open>\n\<close> loads as one record, and
  saving that record writes the row ended with \<open>\r\n\<close>, a different text.
\<close>

theorem save_load_rewrites_text:
  "load_employees (Some (Text (ustr ''1,Ann,HR,Dev'' @ [NL]))) =
     (Inr [[(''id'', ustr ''1''), (''name'', ustr ''Ann''), (''department'', ustr ''HR''),
            (''role'', ustr ''Dev'')]],
      Some (Text (ustr ''1,Ann,HR,Dev'' @ [NL]))) \<and>
   atomic_save_employees
     [[(''id'', ustr ''1''), (''name'', ustr ''Ann''), (''department'', ustr ''HR''),
       (''role'', ustr ''Dev'')]]
     (Some (Text (ustr ''1,Ann,HR,Dev'' @ [NL]))) = Some (Text (ustr ''1,Ann,HR,Dev'' @ [CR, NL])) \<and>
   Some (Text (ustr ''1,Ann,HR,Dev'' @ [CR, NL])) \<noteq> Some (Text (ustr ''1,Ann,HR,Dev'' @ [NL]))"
  by (simp add: reader_eval store_eval writer_eval)

subsection \<open>The ids of the loaded collection\<close>

lemma stored_id:
  assumes "fst (load_employees fs) = Inr es" and "e \<in> set es"
  shows "map_of e ''id'' = Some (dict_get e ''id'' [])"
proof -
  have "map_of (as_stored e) ''id'' = Some (strip (dict_get e ''id'' []))" by (rule id_as_stored)
  then have "map_of e ''id'' = Some (strip (dict_get e ''id'' []))"
    by (simp add: loaded_stored(1) [OF assms])
  then show ?thesis by (cases "map_of e ''id''") (simp_all add: dict_get_def)
qed

lemma add_employee_unique_ids:
  assumes l: "fst (load_employees fs) = Inr es" and u: "unique_ids es"
    and l': "fst (load_employees (snd (add_employee emp fs))) = Inr es'"
  shows "unique_ids es'"
proof (cases "\<exists>e \<in> set es. map_of e ''id'' = Some (strip (dict_get emp ''id'' []))")
  case True
  with l' have "es' = es" by (simp add: add_employee_eq [OF l] load_ensure_fst l)
  with u show ?thesis by simp
next
  case False
  then have new: "strip (dict_get emp ''id'' []) \<notin> (\<lambda>e. dict_get e ''id'' []) ` set es"
    using stored_id [OF l] by auto
  have "dict_get (as_stored emp) ''id'' [] = strip (dict_get emp ''id'' [])"
    by (simp add: as_stored_eq dict_get_def)
  moreover from l' False have "es' = es @ [as_stored emp]"
    by (simp add: add_employee_eq [OF l] load_after_append [OF l] split: if_splits)
  ultimately show ?thesis using u new by (simp add: unique_ids_def)
qed

lemma delete_employee_unique_ids:
  assumes l: "fst (load_employees fs) = Inr es" and u: "unique_ids es"
    and l': "fst (load_employees (snd (delete_employee emp_id fs))) = Inr es'"
  shows "unique_ids es'"
proof -
  from l' have "es' = es \<or> es' = filter (\<lambda>e. map_of e ''id'' \<noteq> Some emp_id) es"
    by (simp add: delete_employee_eq [OF l] load_ensure_fst l load_after_filter [OF l]
        split: if_splits)
  with u show ?thesis by (auto simp: unique_ids_def distinct_map_filter)
qed

lemma update_employee_unique_ids:
  assumes l: "fst (load_employees fs) = Inr es" and u: "unique_ids es"
    and v: "map_of upd ''id'' = Some v"
    and l': "fst (load_employees (snd (update_employee emp_id upd fs))) = Inr es'"
  shows "unique_ids es'"
proof (cases "\<forall>e \<in> set es. map_of e ''id'' \<noteq> Some emp_id")
  case True
  with l' have "es' = es" by (simp add: update_employee_not_found [OF l] load_ensure_fst l)
  with u show ?thesis by simp
next
  case False
  let ?ids = "map (\<lambda>e. dict_get e ''id'' []) es"
  from False obtain j where j: "j < length es" "map_of (es ! j) ''id'' = Some emp_id"
    "\<forall>k < j. map_of (es ! k) ''id'' \<noteq> Some emp_id"
    using first_match [of es "\<lambda>e. map_of e ''id'' = Some emp_id"] by blast
  have new: "dict_get (as_stored upd) ''id'' [] = strip v"
    "strip (dict_get upd ''id'' emp_id) = strip v"
    using v by (simp_all add: as_stored_eq dict_get_def)
  have at_j: "?ids ! j = emp_id"
    using j stored_id [OF l, of "es ! j"] by simp
  note found = update_employee_found [OF l j, of upd, unfolded new]
  show ?thesis
  proof (cases "strip v \<noteq> emp_id \<and> (\<exists>e \<in> set es. map_of e ''id'' = Some (strip v))")
    case True
    with l' have "es' = es" by (simp add: found load_ensure_fst l)
    with u show ?thesis by simp
  next
    case False
    then have "snd (update_employee emp_id upd fs) =
        atomic_save_employees (es[j := upd]) (ensure_data_file fs)"
      by (simp only: found if_False snd_conv)
    with l' have p: "es' = es[j := as_stored upd]"
      by (simp add: load_after_update [OF l j(1)] split: if_splits)
    have ids: "map (\<lambda>e. dict_get e ''id'' []) (es[j := as_stored upd]) = ?ids[j := strip v]"
      by (simp add: map_update new)
    have "distinct (?ids[j := strip v])"
    proof (cases "strip v = emp_id")
      case True
      then have "?ids[j := strip v] = ?ids" using at_j by (metis list_update_id)
      then show ?thesis using u by (simp add: unique_ids_def)
    next
      case ne: False
      with False have "\<forall>e \<in> set es. map_of e ''id'' \<noteq> Some (strip v)" by blast
      then have "strip v \<notin> set ?ids" using stored_id [OF l] by auto
      then show ?thesis using u
        by (intro distinct_list_update) (auto simp: unique_ids_def)
    qed
    then show ?thesis by (simp add: p ids unique_ids_def)
  qed
qed

text \<open>
  Claim C1 (at most one record per id). \<open>add_employee\<close> and \<open>delete_employee\<close> keep the
  ids of the loaded collection distinct, and so does \<open>update_employee\<close> when the new
  record has the key \<open>id\<close> (the three lemmas above). \<open>update_employee\<close> with a new record
  without the key \<open>id\<close> does not: its collision check takes the given id for the new id,
  but the record is saved with the empty id. From a file with the ids \<open>1\<close> and \<open>2\<close>, two
  such updates, each reporting success, leave two records with the empty id; the file
  before the second update still has distinct ids.
\<close>

theorem update_employee_without_id_breaks_unique_ids:
  "unique_ids (persisted (Some (Text (ustr ''1,Ann,HR,Dev'' @ [CR, NL] @ ustr ''2,Bob,IT,Ops'' @ [CR, NL])))) \<and>
   update_employee (ustr ''1'')
     [(''name'', ustr ''Ann''), (''department'', ustr ''HR''), (''role'', ustr ''Lead'')]
     (Some (Text (ustr ''1,Ann,HR,Dev'' @ [CR, NL] @ ustr ''2,Bob,IT,Ops'' @ [CR, NL]))) =
     (Inr (True, ''Updated''),
      Some (Text (ustr '',Ann,HR,Lead'' @ [CR, NL] @ ustr ''2,Bob,IT,Ops'' @ [CR, NL]))) \<and>
   unique_ids (persisted (Some (Text (ustr '',Ann,HR,Lead'' @ [CR, NL] @ ustr ''2,Bob,IT,Ops'' @ [CR, NL])))) \<and>
   update_employee (ustr ''2'')
     [(''name'', ustr ''Bob''), (''department'', ustr ''IT''), (''role'', ustr ''Lead'')]
     (Some (Text (ustr '',Ann,HR,Lead'' @ [CR, NL] @ ustr ''2,Bob,IT,Ops'' @ [CR, NL]))) =
     (Inr (True, ''Updated''),
      Some (Text (ustr '',Ann,HR,Lead'' @ [CR, NL] @ ustr '',Bob,IT,Lead'' @ [CR, NL]))) \<and>
   map (\<lambda>e. dict_get e ''id'' [])
     (persisted (Some (Text (ustr '',Ann,HR,Lead'' @ [CR, NL] @ ustr '',Bob,IT,Lead'' @ [CR, NL])))) =
     [[], []] \<and>
   \<not> unique_ids (persisted (Some (Text (ustr '',Ann,HR,Lead'' @ [CR, NL] @ ustr '',Bob,IT,Lead'' @ [CR, NL]))))"
  by (simp add: reader_eval store_eval writer_eval update_employee_def update_loop.simps
      persisted_def unique_ids_def)

end
